theory Spec2Isabelle
  imports Main "HOL-Library.Word" "HOL-Library.Sublist"
begin

unbundle bit_operations_syntax

section \<open>Machine types and constants of \<open>t_stress.c\<close>\<close>

text \<open>
  The harness is C on an LP64 target: \<open>unsigned char\<close> is a byte, \<open>unsigned\<close> and
  \<open>uint32_t\<close> are 32 bits, \<open>unsigned long\<close>, \<open>size_t\<close> and \<open>ssize_t\<close> are 64 bits.
  A \<open>ssize_t\<close> is kept as a 64-bit word and read through \<open>sint\<close> or the signed
  comparisons wherever the source compares it as a signed value.

  A C array is a list of bytes; a pointer \<open>&a[off]\<close> is the list \<open>drop off a\<close>, the
  bytes from \<open>off\<close> to the end of the array. A read or a write past the end of the
  array, and the remainder by zero, are undefined behaviour in C: the model makes each
  one a \<open>fault\<close>, returned as \<open>Inl\<close>.
\<close>

type_synonym u8 = "8 word"
type_synonym u32 = "32 word"
type_synonym ulong = "64 word"
type_synonym size_t = "64 word"
type_synonym ssize_t = "64 word"

datatype fault = DivByZero | OutOfBounds

definition RBUF_SIZE :: nat where
  "RBUF_SIZE = 512"

definition MAGIC_BYTE :: u8 where
  "MAGIC_BYTE = 0x5a"

text \<open>The initial value of the thread-local \<open>fast_random_seed\<close> (line 32).\<close>

definition fast_random_seed0 :: u32 where
  "fast_random_seed0 = 5381"

section \<open>The random number generator\<close>

text \<open>
  \<open>fast_random\<close> (lines 43-52) reads and writes the thread-local seed; the model takes
  the seed and returns the result with the new seed.
\<close>

definition fast_random :: "u32 \<Rightarrow> ulong \<times> u32" where
  "fast_random seed =
     (let x = seed;
          x = x XOR push_bit 13 x;
          x = x XOR drop_bit 17 x;
          x = x XOR push_bit 5 x
      in (ucast x, x))"

section \<open>The message codec\<close>

text \<open>
  The loop \<open>while (n--) { ... }\<close> of \<open>generate_message\<close> (lines 61-65), on the
  variables \<open>buf\<close>, \<open>i\<close>, \<open>n\<close>, \<open>cksum\<close> and the seed. The character constants are
  \<open>'!' = 33\<close> and \<open>'~' = 126\<close>, so \<open>'~' - '!' = 93\<close>.
\<close>

function gen_loop ::
  "u8 list \<Rightarrow> u32 \<Rightarrow> u32 \<Rightarrow> u8 \<Rightarrow> u32 \<Rightarrow> fault + (u8 list \<times> u32 \<times> u8 \<times> u32)" where
  "gen_loop buf i n cksum seed =
     (if n = 0 then Inr (buf, i, cksum, seed)
      else
        (let (r, seed') = fast_random seed;
             c = (ucast (33 + r mod 93) :: u8)
         in if unat i < length buf
            then (let buf' = buf[unat i := c]
                  in gen_loop buf' (i + 1) (n - 1) (cksum XOR buf' ! unat i) seed')
            else Inl OutOfBounds))"
  by pat_completeness auto
termination
  by (relation "measure (\<lambda>(buf, i, n, cksum, seed). unat n)")
     (auto simp: unat_minus_one unat_gt_0)

declare gen_loop.simps [simp del]

text \<open>
  \<open>generate_message\<close> (lines 54-70). It returns the value of \<open>i\<close>, the buffer as
  written and the new seed.
\<close>

definition generate_message ::
  "u8 list \<Rightarrow> size_t \<Rightarrow> u32 \<Rightarrow> fault + (size_t \<times> u8 list \<times> u32)" where
  "generate_message buf buflen seed =
     (if buflen - 2 = 0 then Inl DivByZero
      else
        (let (r, seed1) = fast_random seed;
             len = (ucast (r mod (buflen - 2)) :: u32)
         in case gen_loop buf 1 len 0 seed1 of
              Inl f \<Rightarrow> Inl f
            | Inr (buf1, i, cksum, seed2) \<Rightarrow>
                if unat i < length buf1
                then (let buf2 = buf1[unat i := cksum];
                          i' = i + 1
                      in if 0 < length buf2
                         then Inr (ucast i', buf2[0 := ucast len], seed2)
                         else Inl OutOfBounds)
                else Inl OutOfBounds))"

text \<open>The loop \<open>while (len--) cksum ^= buf[i++];\<close> of \<open>verify_message\<close> (lines 78-80).\<close>

function ver_loop :: "u8 list \<Rightarrow> u32 \<Rightarrow> u32 \<Rightarrow> u8 \<Rightarrow> fault + (u32 \<times> u8)" where
  "ver_loop buf i len cksum =
     (if len = 0 then Inr (i, cksum)
      else if unat i < length buf
           then ver_loop buf (i + 1) (len - 1) (cksum XOR buf ! unat i)
           else Inl OutOfBounds)"
  by pat_completeness auto
termination
  by (relation "measure (\<lambda>(buf, i, len, cksum). unat len)")
     (auto simp: unat_minus_one unat_gt_0)

declare ver_loop.simps [simp del]

text \<open>
  \<open>verify_message\<close> (lines 72-85). The error value is \<open>-1\<close>; the other result is
  \<open>(unsigned)buf[0] + 2\<close>, widened to \<open>ssize_t\<close>.
\<close>

definition verify_message :: "u8 list \<Rightarrow> fault + ssize_t" where
  "verify_message buf =
     (if 0 < length buf
      then (case ver_loop buf 1 (ucast (buf ! 0)) 0 of
              Inl f \<Rightarrow> Inl f
            | Inr (i, cksum) \<Rightarrow>
                if unat i < length buf
                then (if buf ! unat i \<noteq> cksum then Inr (- 1)
                      else Inr (ucast ((ucast (buf ! 0) :: u32) + 2)))
                else Inl OutOfBounds)
      else Inl OutOfBounds)"

section \<open>Frames\<close>

text \<open>
  The vocabulary of the specification: the exclusive-or of a list of bytes, and the
  frame of a payload, \<open>[length byte][payload bytes][checksum byte]\<close>.
\<close>

fun xor_all :: "u8 list \<Rightarrow> u8" where
  "xor_all [] = 0"
| "xor_all (b # bs) = b XOR xor_all bs"

definition frame :: "u8 list \<Rightarrow> u8 list" where
  "frame payload = of_nat (length payload) # payload @ [xor_all payload]"

text \<open>
  The bytes that the loop of \<open>generate_message\<close> draws from a seed: \<open>rand_char\<close> is
  the byte of one iteration, \<open>rand_bytes k\<close> the bytes of \<open>k\<close> iterations with the seed
  they leave.
\<close>

definition rand_char :: "u32 \<Rightarrow> u8" where
  "rand_char seed = ucast (33 + fst (fast_random seed) mod 93)"

fun rand_bytes :: "nat \<Rightarrow> u32 \<Rightarrow> u8 list \<times> u32" where
  "rand_bytes 0 seed = ([], seed)"
| "rand_bytes (Suc k) seed =
     (let (bs, seed') = rand_bytes k (snd (fast_random seed))
      in (rand_char seed # bs, seed'))"

text \<open>
  The payload length that \<open>generate_message\<close> chooses (line 57), as a natural number.
\<close>

definition chosen_len :: "size_t \<Rightarrow> u32 \<Rightarrow> nat" where
  "chosen_len buflen seed = unat (fst (fast_random seed)) mod unat (buflen - 2)"

section \<open>The worker loop\<close>

text \<open>
  The ring buffer (\<open>ringbuf.h\<close>) is the system under test and is not part of the
  harness. The model takes what it answers as an input: an \<open>env\<close> holds the answers
  that one step of a worker may read, the length and offset of \<open>ringbuf_consume\<close> and
  the result of \<open>ringbuf_acquire\<close>. It also holds the bytes that the uninitialised
  local array \<open>buf\<close> (line 102) has when the iteration starts.
\<close>

record env =
  consume_len :: size_t
  consume_off :: size_t
  acquire_ret :: ssize_t
  stack_bytes :: "nat \<Rightarrow> u8"

text \<open>
  What a worker does that others can observe: its calls of the ring buffer with their
  answers, each call \<open>verify_message(&rbuf[off])\<close> with the offset and with the result
  or the fault of the call, the message that \<open>generate_message\<close> wrote, and the
  \<open>memcpy\<close> into \<open>rbuf\<close> at an offset with a length.
\<close>

datatype event =
    Consume size_t size_t
  | Verify size_t "fault + ssize_t"
  | Release size_t
  | Generated "u8 list"
  | Acquire size_t ssize_t
  | CopyIn size_t size_t
  | Produce

text \<open>
  A failed \<open>assert\<close> aborts the process: the guard byte (line 106), the offset
  (lines 111 and 125), the result of \<open>verify_message\<close> (lines 114 and 115); so does a
  fault.
\<close>

datatype abort =
    AssertGuard
  | AssertOffset
  | AssertRetPositive
  | AssertRetInSpan
  | Fault fault

text \<open>
  The places of a worker in the loop of \<open>ringbuf_stress\<close> (lines 101-130), each with the
  local variables that are live there: a step of the model is what the worker does from
  one place to the next.
\<close>

datatype pc =
    LoopHead
  | CheckGuard
  | DoConsume
  | Decode size_t size_t
  | DoRelease size_t
  | Generate
  | DoAcquire "u8 list" size_t
  | DoCopy size_t "u8 list" size_t
  | DoProduce
  | WaitEnd
  | Aborted abort

record worker =
  id_w :: nat
  fast_random_seed :: u32
  pc :: pc

text \<open>The size of the local array \<open>buf\<close>: \<open>MIN((1 << CHAR_BIT), RBUF_SIZE)\<close> (line 102).\<close>

definition BUF_SIZE :: nat where
  "BUF_SIZE = min (2 ^ 8) RBUF_SIZE"

text \<open>
  The loop \<open>while (rem) { ... }\<close> of the consumer (lines 112-117). It returns the calls of
  \<open>verify_message\<close> it made, each with the offset and what the call gave, the last one
  included when the loop stops there, and the assertion that failed or the fault, if
  any: the call (line 113) comes before the assertions on its result (lines 114-115).
\<close>

function decode_loop :: "u8 list \<Rightarrow> size_t \<Rightarrow> size_t \<Rightarrow> event list \<times> abort option" where
  "decode_loop rb off rem =
     (if rem = 0 then ([], None)
      else
        (case verify_message (drop (unat off) rb) of
           Inl f \<Rightarrow> ([Verify off (Inl f)], Some (Fault f))
         | Inr ret \<Rightarrow>
             if \<not> 0 <s ret then ([Verify off (Inr ret)], Some AssertRetPositive)
             else if \<not> ret \<le>s rem then ([Verify off (Inr ret)], Some AssertRetInSpan)
             else (case decode_loop rb (off + ret) (rem - ret) of
                     (evs, a) \<Rightarrow> (Verify off (Inr ret) # evs, a))))"
  by pat_completeness auto
termination
proof (relation "measure (\<lambda>(rb, off, rem). unat rem)")
  show "wf (measure (\<lambda>(rb, off, rem). unat rem))" by simp
next
  fix rb :: "u8 list" and off rem ret :: "64 word"
  assume "rem \<noteq> 0" and "\<not> \<not> 0 <s ret" and "\<not> \<not> ret \<le>s rem"
  then have p: "0 < sint ret" and le: "sint ret \<le> sint rem"
    by (simp_all add: word_sless_alt word_sle_eq)
  have u: "sint w = uint w" if nn: "0 \<le> sint w" for w :: "64 word"
  proof -
    have "sint w < 2 ^ (LENGTH(64) - 1)" by (rule sint_lt)
    also have "(2::int) ^ (LENGTH(64) - 1) \<le> 2 ^ LENGTH(64)" by simp
    finally have "take_bit LENGTH(64) (sint w) = sint w"
      using nn by (simp add: take_bit_int_eq_self)
    then show ?thesis by (simp add: uint_sint)
  qed
  have "uint ret \<le> uint rem" and "0 < uint ret"
    using p le u[of ret] u[of rem] by simp_all
  then have le': "unat ret \<le> unat rem" and pos: "0 < unat ret"
    by (simp_all add: unat_eq_nat_uint del: nat_uint_eq)
  then have "ret \<le> rem" by (simp add: word_le_nat_alt)
  then have "unat (rem - ret) < unat rem"
    using pos le' by (simp add: unat_sub)
  then show "((rb, off + ret, rem - ret), (rb, off, rem)) \<in> measure (\<lambda>(rb, off, rem). unat rem)"
    by simp
qed

declare decode_loop.simps [simp del]

text \<open>
  \<open>memcpy(&dst[off], src, n)\<close>: the \<open>n\<close> bytes of \<open>dst\<close> from \<open>off\<close> become the first \<open>n\<close>
  bytes of \<open>src\<close>.
\<close>

definition memcpy :: "u8 list \<Rightarrow> nat \<Rightarrow> u8 list \<Rightarrow> nat \<Rightarrow> fault + u8 list" where
  "memcpy dst off src n =
     (if off + n \<le> length dst \<and> n \<le> length src
      then Inr (take off dst @ take n src @ drop (off + n) dst)
      else Inl OutOfBounds)"

text \<open>
  One step of a worker, from the answers of the ring buffer, the value of \<open>stop\<close> and
  the shared array \<open>rbuf\<close>: the worker after the step, \<open>rbuf\<close> after the step and the
  events of the step. The consumer is the worker whose \<open>id\<close> is 0. \<open>stop\<close> is read at
  \<open>LoopHead\<close> (line 101) and nowhere else; \<open>continue\<close> and the end of the body lead back
  to \<open>LoopHead\<close>. A worker that left the loop waits at the barrier (line 130), and an
  aborted one does nothing more.
\<close>

definition ringbuf_stress_step ::
  "env \<Rightarrow> bool \<Rightarrow> u8 list \<Rightarrow> worker \<Rightarrow> worker \<times> u8 list \<times> event list" where
  "ringbuf_stress_step e stp rb w =
     (case pc w of
        LoopHead \<Rightarrow> (w\<lparr>pc := (if stp then WaitEnd else CheckGuard)\<rparr>, rb, [])
      | CheckGuard \<Rightarrow>
          (if RBUF_SIZE < length rb
           then (if rb ! RBUF_SIZE = MAGIC_BYTE
                 then (w\<lparr>pc := (if id_w w = 0 then DoConsume else Generate)\<rparr>, rb, [])
                 else (w\<lparr>pc := Aborted AssertGuard\<rparr>, rb, []))
           else (w\<lparr>pc := Aborted (Fault OutOfBounds)\<rparr>, rb, []))
      | DoConsume \<Rightarrow>
          (let len = consume_len e; off = consume_off e
           in if len \<noteq> 0
              then (if unat off < RBUF_SIZE
                    then (w\<lparr>pc := Decode len off\<rparr>, rb, [Consume len off])
                    else (w\<lparr>pc := Aborted AssertOffset\<rparr>, rb, [Consume len off]))
              else (w\<lparr>pc := LoopHead\<rparr>, rb, [Consume len off]))
      | Decode len off \<Rightarrow>
          (case decode_loop rb off len of
             (evs, Some a) \<Rightarrow> (w\<lparr>pc := Aborted a\<rparr>, rb, evs)
           | (evs, None) \<Rightarrow> (w\<lparr>pc := DoRelease len\<rparr>, rb, evs))
      | DoRelease len \<Rightarrow> (w\<lparr>pc := LoopHead\<rparr>, rb, [Release len])
      | Generate \<Rightarrow>
          (case generate_message (map (stack_bytes e) [0..<BUF_SIZE]) (of_nat (BUF_SIZE - 1))
                  (fast_random_seed w) of
             Inl f \<Rightarrow> (w\<lparr>pc := Aborted (Fault f)\<rparr>, rb, [])
           | Inr (len, buf, seed') \<Rightarrow>
               (w\<lparr>pc := DoAcquire buf len, fast_random_seed := seed'\<rparr>, rb,
                [Generated (take (unat len) buf)]))
      | DoAcquire buf len \<Rightarrow>
          (let ret = acquire_ret e
           in if ret \<noteq> - 1
              then (if unat ret < RBUF_SIZE
                    then (w\<lparr>pc := DoCopy ret buf len\<rparr>, rb, [Acquire len ret])
                    else (w\<lparr>pc := Aborted AssertOffset\<rparr>, rb, [Acquire len ret]))
              else (w\<lparr>pc := LoopHead\<rparr>, rb, [Acquire len ret]))
      | DoCopy off buf len \<Rightarrow>
          (case memcpy rb (unat off) buf (unat len) of
             Inl f \<Rightarrow> (w\<lparr>pc := Aborted (Fault f)\<rparr>, rb, [CopyIn off len])
           | Inr rb' \<Rightarrow> (w\<lparr>pc := DoProduce\<rparr>, rb', [CopyIn off len]))
      | DoProduce \<Rightarrow> (w\<lparr>pc := LoopHead\<rparr>, rb, [Produce])
      | WaitEnd \<Rightarrow> (w, rb, [])
      | Aborted a \<Rightarrow> (w, rb, []))"

text \<open>A worker that runs alone, one step for each \<open>env\<close> of the list.\<close>

fun ringbuf_stress_steps ::
  "env list \<Rightarrow> bool \<Rightarrow> u8 list \<Rightarrow> worker \<Rightarrow> worker \<times> u8 list \<times> event list" where
  "ringbuf_stress_steps [] stp rb w = (w, rb, [])"
| "ringbuf_stress_steps (e # es) stp rb w =
     (let (w1, rb1, evs1) = ringbuf_stress_step e stp rb w;
          (w2, rb2, evs2) = ringbuf_stress_steps es stp rb1 w1
      in (w2, rb2, evs1 @ evs2))"

section \<open>The run of the test\<close>

text \<open>
  The state that the threads share: the array \<open>rbuf\<close> of \<open>RBUF_SIZE + 1\<close> bytes (line 38),
  the flag \<open>stop\<close> and the workers. \<open>run_test\<close> clears \<open>stop\<close> (line 156) and fills
  \<open>rbuf\<close>, guard byte included, with \<open>MAGIC_BYTE\<close> (line 171); each thread starts with
  the seed 5381 (line 32) and enters the loop after the barrier (line 100), where the
  model starts.
\<close>

record gstate =
  rbuf :: "u8 list"
  stop :: bool
  workers :: "worker list"

definition init_worker :: "nat \<Rightarrow> worker" where
  "init_worker i = \<lparr>id_w = i, fast_random_seed = fast_random_seed0, pc = LoopHead\<rparr>"

definition run_test_init :: "nat \<Rightarrow> gstate" where
  "run_test_init nworkers =
     \<lparr>rbuf = replicate (RBUF_SIZE + 1) MAGIC_BYTE, stop = False,
      workers = map init_worker [0..<nworkers]\<rparr>"

text \<open>
  The threads interleave: a schedule says, step by step, which worker moves and what
  the ring buffer answers it, or that the alarm fires and \<open>ding\<close> sets \<open>stop\<close>
  (line 140). A step of a worker is atomic in the model: what is proved of runs below
  is about the guard byte, which a step writes only when its copy-in reaches it, and
  about a worker's own variables and events, which no other thread touches. Once a
  worker has aborted, the process is gone and nothing moves.
\<close>

datatype sched = Ding | Step nat env

definition aborted :: "gstate \<Rightarrow> bool" where
  "aborted g = (\<exists>w \<in> set (workers g). case pc w of Aborted a \<Rightarrow> True | _ \<Rightarrow> False)"

definition gstep :: "sched \<Rightarrow> gstate \<Rightarrow> gstate \<times> (nat \<times> event) list" where
  "gstep s g =
     (if aborted g then (g, [])
      else
        (case s of
           Ding \<Rightarrow> (g\<lparr>stop := True\<rparr>, [])
         | Step i e \<Rightarrow>
             if i < length (workers g)
             then (let (w', rb', evs) = ringbuf_stress_step e (stop g) (rbuf g) (workers g ! i)
                   in (g\<lparr>rbuf := rb', workers := (workers g)[i := w']\<rparr>, map (Pair i) evs))
             else (g, [])))"

text \<open>The state and the trace, each event with the index of its worker, after a schedule.\<close>

definition gexec :: "sched list \<Rightarrow> gstate \<Rightarrow> gstate \<times> (nat \<times> event) list" where
  "gexec ss g =
     foldl (\<lambda>(g', tr) s. (let (g'', evs) = gstep s g' in (g'', tr @ evs))) (g, []) ss"

definition events_of :: "nat \<Rightarrow> (nat \<times> event) list \<Rightarrow> event list" where
  "events_of i tr = map snd (filter (\<lambda>x. fst x = i) tr)"

section \<open>The vocabulary of the claims\<close>









text \<open>
  The payload that \<open>generate_message\<close> draws from a seed when \<open>buflen\<close> is
  \<open>sizeof(buf) - 1\<close>, as the producer calls it (line 122), and the seed it leaves.
\<close>

definition gen_payload :: "u32 \<Rightarrow> u8 list" where
  "gen_payload seed =
     fst (rand_bytes (chosen_len (of_nat (BUF_SIZE - 1)) seed) (snd (fast_random seed)))"

definition gen_seed :: "u32 \<Rightarrow> u32" where
  "gen_seed seed =
     snd (rand_bytes (chosen_len (of_nat (BUF_SIZE - 1)) seed) (snd (fast_random seed)))"

text \<open>
  The seed that a thread has after \<open>k\<close> calls of \<open>generate_message\<close> from the initial
  seed, and the message of the next call: the bytes of a zeroed buffer that the call
  wrote. They stand for the sequence of messages of a producer.
\<close>

fun nth_seed :: "nat \<Rightarrow> u32" where
  "nth_seed 0 = fast_random_seed0"
| "nth_seed (Suc k) =
     (case generate_message (replicate BUF_SIZE 0) (of_nat (BUF_SIZE - 1)) (nth_seed k) of
        Inl f \<Rightarrow> nth_seed k
      | Inr (len, buf, seed') \<Rightarrow> seed')"

definition nth_message :: "nat \<Rightarrow> u8 list" where
  "nth_message k =
     (case generate_message (replicate BUF_SIZE 0) (of_nat (BUF_SIZE - 1)) (nth_seed k) of
        Inl f \<Rightarrow> []
      | Inr (len, buf, seed') \<Rightarrow> take (unat len) buf)"

text \<open>The messages among the events of a worker, in order.\<close>

fun generated :: "event list \<Rightarrow> u8 list list" where
  "generated [] = []"
| "generated (Generated m # evs) = m # generated evs"
| "generated (ev # evs) = generated evs"

text \<open>
  A worker is in sequence with its events when the messages it generated are the first
  messages of the sequence and its seed is the seed after them.
\<close>

definition in_sequence :: "worker \<Rightarrow> event list \<Rightarrow> bool" where
  "in_sequence w evs \<longleftrightarrow>
     generated evs = map nth_message [0..<length (generated evs)] \<and>
     fast_random_seed w = nth_seed (length (generated evs))"

text \<open>
  The hypothesis of the guard-byte invariant: a copy-in ends inside the region,
  \<open>off + len \<le> RBUF_SIZE\<close>.
\<close>

definition copy_in_bounded :: "event \<Rightarrow> bool" where
  "copy_in_bounded ev =
     (case ev of CopyIn off len \<Rightarrow> unat off + unat len \<le> RBUF_SIZE | _ \<Rightarrow> True)"

text \<open>
  What the hypothesis gives for a state with its trace: \<open>rbuf\<close> has its size, the guard
  byte is \<open>MAGIC_BYTE\<close> and no worker has failed the assertion on it.
\<close>

definition guard_intact :: "gstate \<Rightarrow> (nat \<times> event) list \<Rightarrow> bool" where
  "guard_intact g tr \<longleftrightarrow>
     ((\<forall>x \<in> set tr. copy_in_bounded (snd x)) \<longrightarrow>
        length (rbuf g) = RBUF_SIZE + 1 \<and> rbuf g ! RBUF_SIZE = MAGIC_BYTE \<and>
        (\<forall>w \<in> set (workers g). pc w \<noteq> Aborted AssertGuard))"



text \<open>
  The \<open>Verify\<close> events of a span of frames that starts at \<open>off\<close>: one for each payload,
  at the offset where its frame starts, with the size of the frame as the result.
\<close>

fun verify_events :: "size_t \<Rightarrow> u8 list list \<Rightarrow> event list" where
  "verify_events off [] = []"
| "verify_events off (p # ps) =
     Verify off (Inr (of_nat (length p + 2))) #
       verify_events (off + of_nat (length p + 2)) ps"

section \<open>An example\<close>

text \<open>
  A ring buffer that has nothing to read and grants every reservation at offset 0, and
  the run of two workers in which the producer, worker 1, makes one whole iteration:
  it passes the two checks at the top of the loop, generates its first message,
  acquires, copies the message to offset 0 and produces. \<open>example_state\<close> and
  \<open>example_trace\<close> are the state and the trace after this run, \<open>copy_state\<close> and
  \<open>copy_trace\<close> those after its first four steps, when the producer is about to copy.
\<close>

definition grant_env :: env where
  "grant_env = \<lparr>consume_len = 0, consume_off = 0, acquire_ret = 0, stack_bytes = (\<lambda>i. 0)\<rparr>"

definition example_sched :: "sched list" where
  "example_sched = replicate 6 (Step 1 grant_env)"

definition copy_state :: gstate where
  "copy_state =
     \<lparr>rbuf = replicate (RBUF_SIZE + 1) MAGIC_BYTE,
      stop = False,
      workers = [init_worker 0,
                 \<lparr>id_w = 1, fast_random_seed = gen_seed 5381,
                  pc = DoCopy 0
                    (frame (gen_payload 5381) @
                     drop (length (gen_payload 5381) + 2)
                       (map (stack_bytes grant_env) [0..<BUF_SIZE]))
                    (of_nat (length (gen_payload 5381) + 2))\<rparr>]\<rparr>"

definition copy_trace :: "(nat \<times> event) list" where
  "copy_trace =
     [(1, Generated (frame (gen_payload 5381))),
      (1, Acquire (of_nat (length (gen_payload 5381) + 2)) 0)]"

definition example_state :: gstate where
  "example_state =
     \<lparr>rbuf = frame (gen_payload 5381) @
              drop (length (gen_payload 5381) + 2) (replicate (RBUF_SIZE + 1) MAGIC_BYTE),
      stop = False,
      workers = [init_worker 0,
                 \<lparr>id_w = 1, fast_random_seed = gen_seed 5381, pc = LoopHead\<rparr>]\<rparr>"

definition example_trace :: "(nat \<times> event) list" where
  "example_trace =
     [(1, Generated (frame (gen_payload 5381))),
      (1, Acquire (of_nat (length (gen_payload 5381) + 2)) 0),
      (1, CopyIn 0 (of_nat (length (gen_payload 5381) + 2))),
      (1, Produce)]"




section \<open>The codec loops\<close>

lemma unat_succ_small: "unat (i::u32) + 1 < 2 ^ 32 \<Longrightarrow> unat (i + 1) = unat i + 1"
  by (simp add: unat_word_ariths)

lemma length_rand_bytes: "length (fst (rand_bytes k seed)) = k"
  by (induction k arbitrary: seed) (simp_all add: split_beta)

lemma gen_loop_rand_bytes:
  "unat i + unat n \<le> length buf \<Longrightarrow> unat i + unat n < 2 ^ 32 \<Longrightarrow>
   gen_loop buf i n c seed =
     Inr (take (unat i) buf @ fst (rand_bytes (unat n) seed) @ drop (unat i + unat n) buf,
          i + n, c XOR xor_all (fst (rand_bytes (unat n) seed)),
          snd (rand_bytes (unat n) seed))"
proof (induction buf i n c seed rule: gen_loop.induct)
  case (1 buf i n cksum seed)
  show ?case
  proof (cases "n = 0")
    case True
    then show ?thesis by (simp add: gen_loop.simps)
  next
    case False
    define c where "c = rand_char seed"
    define seed' where "seed' = snd (fast_random seed)"
    define buf' where "buf' = buf[unat i := c]"
    from False have pos: "0 < unat n" by (simp add: unat_gt_0)
    then obtain k where k: "unat n = Suc k" by (cases "unat n") auto
    have n1: "unat (n - 1) = k" using False k by (simp add: unat_minus_one)
    have ilt: "unat i < length buf" using pos "1.prems" by linarith
    have i1: "unat (i + 1) = Suc (unat i)"
      using pos "1.prems" unat_succ_small[of i] by simp
    have unfold: "gen_loop buf i n cksum seed = gen_loop buf' (i + 1) (n - 1) (cksum XOR buf' ! unat i) seed'"
      using False ilt
      by (subst gen_loop.simps) (simp add: Let_def split_beta c_def seed'_def buf'_def rand_char_def)
    have IH: "gen_loop buf' (i + 1) (n - 1) (cksum XOR buf' ! unat i) seed' =
       Inr (take (unat (i + 1)) buf' @ fst (rand_bytes (unat (n - 1)) seed') @
              drop (unat (i + 1) + unat (n - 1)) buf',
            i + 1 + (n - 1), (cksum XOR buf' ! unat i) XOR xor_all (fst (rand_bytes (unat (n - 1)) seed')),
            snd (rand_bytes (unat (n - 1)) seed'))"
    proof -
      have pr: "(fst (fast_random seed), seed') = fast_random seed" by (simp add: seed'_def)
      have b1: "unat (i + 1) + unat (n - 1) \<le> length buf'" using "1.prems" k by (simp add: i1 n1 buf'_def)
      have b2: "unat (i + 1) + unat (n - 1) < 2 ^ 32" using "1.prems" k by (simp add: i1 n1)
      show ?thesis
        using "1.IH"[OF False refl pr refl ilt refl] b1 b2
        by (simp add: buf'_def c_def rand_char_def)
    qed
    have nth: "buf' ! unat i = c" using ilt by (simp add: buf'_def)
    have tk: "take (Suc (unat i)) buf' = take (unat i) buf @ [c]"
      using ilt by (simp add: buf'_def take_Suc_conv_app_nth)
    have dr: "drop (Suc (unat i) + k) buf' = drop (unat i + Suc k) buf"
      by (simp add: buf'_def)
    have rb: "rand_bytes (Suc k) seed = (c # fst (rand_bytes k seed'), snd (rand_bytes k seed'))"
      by (simp add: c_def seed'_def split_beta)
    have IH2: "gen_loop buf' (i + 1) (n - 1) (cksum XOR buf' ! unat i) seed' =
       Inr (take (unat i) buf @ (c # fst (rand_bytes k seed')) @ drop (unat i + Suc k) buf,
            i + n, cksum XOR xor_all (c # fst (rand_bytes k seed')),
            snd (rand_bytes k seed'))"
      unfolding IH i1 n1 tk dr by (simp add: nth xor.assoc)
    show ?thesis
      unfolding unfold IH2 k rb by simp
  qed
qed

lemma ver_loop_take:
  "unat i + unat n \<le> length buf \<Longrightarrow> unat i + unat n < 2 ^ 32 \<Longrightarrow>
   ver_loop buf i n c = Inr (i + n, c XOR xor_all (take (unat n) (drop (unat i) buf)))"
proof (induction buf i n c rule: ver_loop.induct)
  case (1 buf i len cksum)
  show ?case
  proof (cases "len = 0")
    case True
    then show ?thesis by (simp add: ver_loop.simps)
  next
    case False
    then have pos: "0 < unat len" by (simp add: unat_gt_0)
    have n1: "unat (len - 1) = unat len - 1" using False by (simp add: unat_minus_one)
    have ilt: "unat i < length buf" using pos "1.prems" by linarith
    have i1: "unat (i + 1) = unat i + 1" using pos "1.prems" by (intro unat_succ_small) linarith
    have IH: "ver_loop buf (i + 1) (len - 1) (cksum XOR buf ! unat i) =
       Inr (i + 1 + (len - 1), (cksum XOR buf ! unat i) XOR xor_all (take (unat (len - 1)) (drop (unat (i + 1)) buf)))"
      using "1.IH"[OF False ilt] "1.prems" pos by (simp add: n1 i1)
    have tk: "take (unat len) (drop (unat i) buf) = buf ! unat i # take (unat len - 1) (drop (unat i + 1) buf)"
      using pos ilt by (cases "unat len") (simp_all add: Cons_nth_drop_Suc[symmetric])
    have "ver_loop buf i len cksum = ver_loop buf (i + 1) (len - 1) (cksum XOR buf ! unat i)"
      using False ilt by (subst ver_loop.simps) simp
    then show ?thesis
      by (simp add: IH tk n1 i1 xor.assoc)
  qed
qed

lemma unat_add_small:
  "unat (x::'a::len word) + unat y < 2 ^ LENGTH('a) \<Longrightarrow> unat (x + y) = unat x + unat y"
  by (simp add: unat_add_lem)

lemma unat_u8_lt: "unat (b::u8) < 256"
  using unsigned_less[of b, where 'a=nat] by simp

lemma unat_ucast_u8_u32: "unat (ucast (b::u8) :: u32) = unat b"
  using unat_u8_lt[of b] by (simp add: unsigned_ucast_eq take_bit_nat_eq_self)

lemma unat_ucast_u32_u64: "unat (ucast (w::u32) :: 64 word) = unat w"
proof -
  have "unat w < 2 ^ 64"
    using unsigned_less[of w, where 'a=nat] by simp
  then show ?thesis
    by (simp add: unsigned_ucast_eq take_bit_nat_eq_self)
qed

lemma unat_ucast_u8_u64: "unat (ucast (b::u8) :: 64 word) = unat b"
  using unat_u8_lt[of b] by (simp add: unsigned_ucast_eq take_bit_nat_eq_self)

lemma unat_frame_size: "unat (ucast (b::u8) + 2 :: 64 word) = unat b + 2"
proof -
  have p: "unat (ucast b :: 64 word) + unat (2 :: 64 word) < 2 ^ LENGTH(64)"
    using unat_u8_lt[of b] by (simp add: unat_ucast_u8_u64)
  show ?thesis unfolding unat_add_small[OF p] by (simp add: unat_ucast_u8_u64)
qed

lemma ucast_u8_plus2: "(ucast ((ucast (b::u8) :: u32) + 2) :: 64 word) = ucast b + 2"
proof -
  have a: "unat ((ucast b :: u32) + 2) = unat b + 2"
  proof -
    have p: "unat (ucast b :: u32) + unat (2 :: u32) < 2 ^ LENGTH(32)"
      using unat_u8_lt[of b] by (simp add: unat_ucast_u8_u32)
    show ?thesis unfolding unat_add_small[OF p] by (simp add: unat_ucast_u8_u32)
  qed
  have "unat (ucast ((ucast b :: u32) + 2) :: 64 word) = unat b + 2"
    unfolding unat_ucast_u32_u64 a ..
  then show ?thesis
    unfolding word_unat_eq_iff unat_frame_size .
qed

lemma verify_message_eq:
  assumes "unat (hd buf) + 2 \<le> length buf"
  shows "verify_message buf =
    Inr (if buf ! (unat (hd buf) + 1) \<noteq> xor_all (take (unat (hd buf)) (drop 1 buf)) then - 1
         else ucast (hd buf) + 2)"
proof -
  from assms obtain b rest where buf: "buf = b # rest" by (cases buf) auto
  have L: "unat (ucast b :: u32) = unat b" by (rule unat_ucast_u8_u32)
  have lt: "unat b < 256" by (rule unat_u8_lt)
  have vl: "ver_loop buf 1 (ucast b) 0 = Inr (1 + ucast b, 0 XOR xor_all (take (unat b) (drop 1 buf)))"
    using ver_loop_take[of 1 "ucast b" buf 0] assms lt by (simp add: L buf)
  have i: "unat (1 + ucast b :: u32) = unat b + 1"
  proof -
    have p: "unat (1 :: u32) + unat (ucast b :: u32) < 2 ^ LENGTH(32)"
      using lt by (simp add: L)
    show ?thesis unfolding unat_add_small[OF p] by (simp add: L)
  qed
  show ?thesis
    using assms unfolding verify_message_def 
    by (simp add: buf i ucast_u8_plus2 vl[unfolded buf])
qed

lemma unat_fast_random_lt: "unat (fst (fast_random seed)) < 2 ^ 32"
proof -
  have "unat (ucast (w::u32) :: 64 word) < 2 ^ 32" for w
    unfolding unat_ucast_u32_u64 using unsigned_less[of w, where 'a=nat] by simp
  then show ?thesis by (simp add: fast_random_def Let_def)
qed

lemma unat_chosen_len:
  "unat (ucast (fst (fast_random seed) mod (buflen - 2)) :: u32) = chosen_len buflen seed"
proof -
  have "unat (fst (fast_random seed) mod (buflen - 2)) = chosen_len buflen seed"
    by (simp add: chosen_len_def unat_mod)
  moreover have "chosen_len buflen seed < 2 ^ 32"
    using unat_fast_random_lt[of seed] mod_less_eq_dividend[of "unat (fst (fast_random seed))" "unat (buflen - 2)"]
    unfolding chosen_len_def by linarith
  ultimately show ?thesis
    by (simp add: unsigned_ucast_eq take_bit_nat_eq_self)
qed

lemma generate_message_eq:
  assumes nz: "buflen \<noteq> 2"
    and len: "len = chosen_len buflen seed"
    and fits: "len + 2 \<le> length buf"
    and small: "len + 2 < 2 ^ 32"
    and bs: "bs = fst (rand_bytes len (snd (fast_random seed)))"
  shows "generate_message buf buflen seed =
    Inr (of_nat (len + 2), of_nat len # bs @ xor_all bs # drop (len + 2) buf,
         snd (rand_bytes len (snd (fast_random seed))))"
proof -
  define l32 :: u32 where "l32 = ucast (fst (fast_random seed) mod (buflen - 2))"
  have ul: "unat l32 = len" by (simp add: l32_def unat_chosen_len len)
  have lbs: "length bs = len" by (simp add: bs length_rand_bytes)
  have gl: "gen_loop buf 1 l32 0 (snd (fast_random seed)) =
     Inr (take 1 buf @ bs @ drop (1 + len) buf, 1 + l32, xor_all bs,
          snd (rand_bytes len (snd (fast_random seed))))"
    using gen_loop_rand_bytes[of 1 l32 buf 0 "snd (fast_random seed)"] fits small
    by (simp add: ul bs)
  have p: "unat (1 :: u32) + unat l32 < 2 ^ LENGTH(32)" using small by (simp add: ul)
  have i: "unat (1 + l32) = 1 + len" unfolding unat_add_small[OF p] by (simp add: ul)
  have p2: "unat (1 + l32) + unat (1 :: u32) < 2 ^ LENGTH(32)" using small by (simp add: i)
  have i': "unat (1 + l32 + 1) = len + 2" unfolding unat_add_small[OF p2] by (simp add: i)
  have ret: "(ucast (1 + l32 + 1) :: 64 word) = of_nat (len + 2)"
  proof -
    have "(ucast (1 + l32 + 1) :: 64 word) = of_nat (unat (1 + l32 + 1))" by simp
    then show ?thesis by (simp only: i')
  qed
  from fits obtain b0 rest where buf: "buf = b0 # rest" by (cases buf) auto
  have lrest: "len < length rest" using fits by (simp add: buf)
  have upd: "((take 1 buf @ bs @ drop (1 + len) buf)[1 + len := xor_all bs])[0 := ucast l32]
      = ucast l32 # bs @ xor_all bs # drop (len + 2) buf"
    using lrest lbs
    by (simp add: buf list_update_append Cons_nth_drop_Suc[symmetric] upd_conv_take_nth_drop)
  have l8: "(ucast l32 :: u8) = of_nat len"
  proof -
    have "(ucast l32 :: u8) = of_nat (unat l32)" by simp
    then show ?thesis by (simp only: ul)
  qed
  have gm: "generate_message buf buflen seed =
     (case gen_loop buf 1 l32 0 (snd (fast_random seed)) of
        Inl f \<Rightarrow> Inl f
      | Inr (buf1, i, cksum, seed2) \<Rightarrow>
          if unat i < length buf1
          then (if 0 < length buf1
                then Inr (ucast (i + 1), (buf1[unat i := cksum])[0 := ucast l32], seed2)
                else Inl OutOfBounds)
          else Inl OutOfBounds)"
    using nz by (simp add: generate_message_def Let_def split_beta l32_def split: sum.splits prod.splits)
  have len1: "length (take 1 buf @ bs @ drop (1 + len) buf) = length buf"
    using fits lbs by simp
  show ?thesis
    unfolding gm gl
    using fits upd[unfolded l8] by (simp only: sum.case prod.case i len1 ret l8) auto
qed

lemma rand_char_range: "33 \<le> rand_char seed \<and> rand_char seed \<le> 125"
proof -
  define r where "r = fst (fast_random seed)"
  have m: "unat (r mod 93) < 93" by (simp add: unat_mod)
  have p: "unat (33 :: 64 word) + unat (r mod 93) < 2 ^ LENGTH(64)" using m by simp
  have s: "unat (33 + r mod 93) = 33 + unat (r mod 93)"
    unfolding unat_add_small[OF p] by simp
  have c: "unat (ucast (33 + r mod 93) :: u8) = 33 + unat (r mod 93)"
    using m unfolding unsigned_ucast_eq s by (simp add: take_bit_nat_eq_self)
  show ?thesis
    using m unfolding rand_char_def r_def[symmetric] word_le_nat_alt c by simp
qed

lemma rand_bytes_range:
  "b \<in> set (fst (rand_bytes k seed)) \<Longrightarrow> 33 \<le> b \<and> b \<le> 125"
proof (induction k arbitrary: seed)
  case 0
  then show ?case by simp
next
  case (Suc k)
  then show ?case using rand_char_range[of seed] by (auto simp: split_beta)
qed

lemma xor_all_update:
  "i < length xs \<Longrightarrow> xor_all (xs[i := v]) = xor_all xs XOR xs ! i XOR v"
proof (induction xs arbitrary: i)
  case Nil
  then show ?case by simp
next
  case (Cons x xs)
  show ?case
  proof (cases i)
    case 0
    then show ?thesis by (simp add: xor.commute xor.left_commute)
  next
    case (Suc j)
    then show ?thesis using Cons by (simp add: xor.assoc)
  qed
qed

lemma frame_size_not_error: "(ucast (b::u8) + 2 :: 64 word) \<noteq> - 1"
proof
  assume "(ucast b + 2 :: 64 word) = - 1"
  then have "unat (ucast b + 2 :: 64 word) = unat (- 1 :: 64 word)" by (rule arg_cong)
  then show False using unat_u8_lt[of b] unfolding unat_frame_size
    by (simp add: unsigned_minus_1_eq_mask mask_eq_exp_minus_1)
qed

lemma verify_message_frame:
  assumes "length payload < 256"
  shows "verify_message (of_nat (length payload) # payload @ c # rest) =
    Inr (if c \<noteq> xor_all payload then - 1 else of_nat (length payload + 2))"
proof -
  have u: "unat (of_nat (length payload) :: u8) = length payload"
    using assms by (simp add: unat_of_nat)
  have r: "(ucast (of_nat (length payload) :: u8) + 2 :: 64 word) = of_nat (length payload + 2)"
  proof -
    have "unat (of_nat (length payload + 2) :: 64 word) = length payload + 2"
      by (subst unat_of_nat) (use assms in simp)
    then show ?thesis
      unfolding word_unat_eq_iff unat_frame_size u by (rule sym)
  qed
  have h: "hd (of_nat (length payload) # payload @ c # rest) = of_nat (length payload)" by simp
  have le: "unat (hd (of_nat (length payload) # payload @ c # rest)) + 2
      \<le> length (of_nat (length payload) # payload @ c # rest)"
    unfolding h u by simp
  have n: "(of_nat (length payload) # payload @ c # rest) ! (length payload + 1) = c"
    by (simp add: nth_append)
  have t: "take (length payload) (drop 1 (of_nat (length payload) # payload @ c # rest)) = payload"
    by simp
  show ?thesis
    unfolding verify_message_eq[OF le] h u n t r ..
qed

lemma chosen_len_bound:
  assumes "3 \<le> buflen" and "buflen \<le> 256"
  shows "chosen_len buflen seed < unat buflen - 2" and "unat buflen \<le> 256" and "buflen \<noteq> 2"
proof -
  have lo: "3 \<le> unat buflen" using assms(1) by (simp add: word_le_nat_alt)
  show hi: "unat buflen \<le> 256" using assms(2) by (simp add: word_le_nat_alt)
  have "(2 :: size_t) \<le> buflen" using lo by (simp add: word_le_nat_alt)
  then have sub: "unat (buflen - 2) = unat buflen - 2" by (simp add: unat_sub)
  show "chosen_len buflen seed < unat buflen - 2"
    unfolding chosen_len_def sub using lo by simp
  show "buflen \<noteq> 2" using lo by auto
qed

lemma generate_message_frame:
  assumes "3 \<le> buflen" and "buflen \<le> 256" and "unat buflen \<le> length buf"
    and "len = chosen_len buflen seed" and "bs = fst (rand_bytes len (snd (fast_random seed)))"
  shows "generate_message buf buflen seed =
    Inr (of_nat (len + 2), of_nat len # bs @ xor_all bs # drop (len + 2) buf,
         snd (rand_bytes len (snd (fast_random seed))))"
proof -
  note b = chosen_len_bound[OF assms(1,2)]
  have fits: "len + 2 \<le> length buf" using b(1)[of seed] b(2) assms(3,4) by linarith
  have small: "len + 2 < 2 ^ 32" using b(1)[of seed] b(2) assms(4) by simp
  show ?thesis
    by (rule generate_message_eq[OF b(3) assms(4) fits small assms(5)])
qed

section \<open>Claims about the codec\<close>

text \<open>
  Claim C1 (round trip). A buffer that starts with the frame of a payload of fewer than
  256 bytes (the length byte, the payload, the exclusive-or of the payload), whatever
  follows the frame, makes \<open>verify_message\<close> return the payload length plus 2. And for
  every seed, every \<open>buflen\<close> from 3 to 256 and every buffer of at least \<open>buflen\<close> bytes,
  \<open>generate_message\<close> returns without a fault, and \<open>verify_message\<close> on the buffer it
  wrote returns the value that \<open>generate_message\<close> returned.
\<close>

theorem round_trip:
  "(length payload < 256 \<longrightarrow>
      verify_message (frame payload @ rest) = Inr (of_nat (length payload + 2))) \<and>
   (3 \<le> buflen \<and> buflen \<le> 256 \<and> unat buflen \<le> length buf \<longrightarrow>
      (\<exists>n buf' seed'. generate_message buf buflen seed = Inr (n, buf', seed') \<and>
         verify_message buf' = Inr n))"
proof (intro conjI impI)
  assume "length payload < 256"
  then show "verify_message (frame payload @ rest) = Inr (of_nat (length payload + 2))"
    using verify_message_frame[of payload "xor_all payload" rest] by (simp add: frame_def)
next
  assume a: "3 \<le> buflen \<and> buflen \<le> 256 \<and> unat buflen \<le> length buf"
  define len where "len = chosen_len buflen seed"
  define bs where "bs = fst (rand_bytes len (snd (fast_random seed)))"
  have g: "generate_message buf buflen seed =
    Inr (of_nat (len + 2), of_nat len # bs @ xor_all bs # drop (len + 2) buf,
         snd (rand_bytes len (snd (fast_random seed))))"
    using a by (intro generate_message_frame) (simp_all add: len_def bs_def)
  have lbs: "length bs = len" by (simp add: bs_def length_rand_bytes)
  have "len < 256"
    using chosen_len_bound(1)[of buflen seed] chosen_len_bound(2)[of buflen] a
    by (simp add: len_def)
  then have "verify_message (of_nat len # bs @ xor_all bs # drop (len + 2) buf) = Inr (of_nat (len + 2))"
    using verify_message_frame[of bs "xor_all bs" "drop (len + 2) buf"] by (simp add: lbs)
  with g show "\<exists>n buf' seed'. generate_message buf buflen seed = Inr (n, buf', seed') \<and>
         verify_message buf' = Inr n"
    by blast
qed

theorem round_trip_witness:
  "verify_message (frame [1, 2, 3] @ [9]) = Inr 5 \<and>
   (\<exists>n buf' seed'. generate_message (replicate 256 0) 255 5381 = Inr (n, buf', seed') \<and>
         verify_message buf' = Inr n)"
  using round_trip[of "[1, 2, 3]" "[9]" 255 "replicate 256 0" 5381] by simp

lemma xor_eq_zero_word: "(a :: 'a::len word) XOR b = 0 \<Longrightarrow> a = b"
proof -
  assume z: "a XOR b = 0"
  have "a XOR (a XOR b) = b" by (simp add: xor.assoc[symmetric])
  then show "a = b" unfolding z by simp
qed

text \<open>
  Claim C2 (corruption detection). On a buffer that holds the bytes its length byte
  declares (the length byte, that many payload bytes and the checksum byte),
  \<open>verify_message\<close> returns the error value \<open>-1\<close> exactly when the byte after the
  payload differs from the exclusive-or of the payload bytes. So in the frame of a
  payload, replacing one payload byte by a different value makes \<open>verify_message\<close>
  return \<open>-1\<close>. A replaced byte exists only when the payload has at least one byte.
\<close>

theorem corruption_detected:
  "(unat (hd buf) + 2 \<le> length buf \<longrightarrow>
      (verify_message buf = Inr (- 1) \<longleftrightarrow>
         buf ! (unat (hd buf) + 1) \<noteq> xor_all (take (unat (hd buf)) (drop 1 buf)))) \<and>
   (length payload < 256 \<and> i < length payload \<and> v \<noteq> payload ! i \<longrightarrow>
      verify_message (of_nat (length payload) # payload[i := v] @ xor_all payload # rest)
        = Inr (- 1))"
proof (intro conjI impI)
  assume "unat (hd buf) + 2 \<le> length buf"
  then show "verify_message buf = Inr (- 1) \<longleftrightarrow>
      buf ! (unat (hd buf) + 1) \<noteq> xor_all (take (unat (hd buf)) (drop 1 buf))"
    using frame_size_not_error[of "hd buf"] by (simp add: verify_message_eq)
next
  assume a: "length payload < 256 \<and> i < length payload \<and> v \<noteq> payload ! i"
  have upd: "xor_all (payload[i := v]) = xor_all payload XOR (payload ! i XOR v)"
    using a by (simp add: xor_all_update xor.assoc)
  have ne: "xor_all payload \<noteq> xor_all (payload[i := v])"
  proof
    assume "xor_all payload = xor_all (payload[i := v])"
    then have "xor_all payload XOR xor_all payload =
        xor_all payload XOR (xor_all payload XOR (payload ! i XOR v))"
      unfolding upd by (rule arg_cong)
    then have "payload ! i XOR v = 0" by (simp add: xor.assoc[symmetric])
    then have "payload ! i = v" by (rule xor_eq_zero_word)
    then show False using a by simp
  qed
  show "verify_message (of_nat (length payload) # payload[i := v] @ xor_all payload # rest)
        = Inr (- 1)"
    using verify_message_frame[of "payload[i := v]" "xor_all payload" rest] a ne by simp
qed

theorem corruption_detected_witness:
  "(verify_message [2, 7, 9, 15, 0] = Inr (- 1) \<longleftrightarrow>
      [2, 7, 9, 15, 0 :: u8] ! 3 \<noteq> xor_all (take 2 (drop 1 [2, 7, 9, 15, 0]))) \<and>
   verify_message (2 # [7, 9][1 := 8] @ xor_all [7, 9] # [0]) = Inr (- 1)"
  using corruption_detected[of "[2, 7, 9, 15, 0]" "[7, 9]" 1 8 "[0]"] by simp

text \<open>
  Claim C3 (postcondition of \<open>generate_message\<close>). For every seed, every \<open>buflen\<close> from 3
  to 256 and every buffer of at least \<open>buflen\<close> bytes, \<open>generate_message\<close> returns without
  a fault. The payload length \<open>len\<close> it chooses is the first random number modulo
  \<open>buflen - 2\<close>, so it is below \<open>buflen - 2\<close>. The buffer keeps its size; byte 0 is \<open>len\<close>;
  bytes 1 to \<open>len\<close> are the next \<open>len\<close> bytes drawn from the generator, each from \<open>'!'\<close>
  (33) to \<open>'}'\<close> (125); byte \<open>len + 1\<close> is the exclusive-or of the payload; every byte at
  an index above \<open>len + 1\<close> is as it was; and the value returned is \<open>len + 2\<close>.
\<close>

theorem generate_message_post:
  "3 \<le> buflen \<and> buflen \<le> 256 \<and> unat buflen \<le> length buf \<longrightarrow>
     (\<exists>len buf' seed'.
        generate_message buf buflen seed = Inr (of_nat (len + 2), buf', seed') \<and>
        len = chosen_len buflen seed \<and> len < unat buflen - 2 \<and>
        length buf' = length buf \<and>
        buf' ! 0 = of_nat len \<and>
        take len (drop 1 buf') = fst (rand_bytes len (snd (fast_random seed))) \<and>
        (\<forall>j. 1 \<le> j \<and> j \<le> len \<longrightarrow> 33 \<le> buf' ! j \<and> buf' ! j \<le> 125) \<and>
        buf' ! (len + 1) = xor_all (take len (drop 1 buf')) \<and>
        (\<forall>j. len + 1 < j \<and> j < length buf \<longrightarrow> buf' ! j = buf ! j))"
proof
  assume a: "3 \<le> buflen \<and> buflen \<le> 256 \<and> unat buflen \<le> length buf"
  define len where "len = chosen_len buflen seed"
  define bs where "bs = fst (rand_bytes len (snd (fast_random seed)))"
  define buf' where "buf' = of_nat len # bs @ xor_all bs # drop (len + 2) buf"
  have g: "generate_message buf buflen seed =
    Inr (of_nat (len + 2), buf', snd (rand_bytes len (snd (fast_random seed))))"
    unfolding buf'_def using a by (intro generate_message_frame) (simp_all add: len_def bs_def)
  have lbs: "length bs = len" by (simp add: bs_def length_rand_bytes)
  have lt: "len < unat buflen - 2" using chosen_len_bound(1)[of buflen seed] a by (simp add: len_def)
  then have fits: "len + 2 \<le> length buf" using a by linarith
  have p1: "length buf' = length buf" using fits by (simp add: buf'_def lbs)
  have p2: "buf' ! 0 = of_nat len" by (simp add: buf'_def)
  have p3: "take len (drop 1 buf') = bs" by (simp add: buf'_def lbs)
  have p4: "33 \<le> buf' ! j \<and> buf' ! j \<le> 125" if "1 \<le> j \<and> j \<le> len" for j
  proof -
    from that obtain k where j: "j = Suc k" and k: "k < len" by (cases j) auto
    have "buf' ! j = bs ! k" using k by (simp add: buf'_def j nth_append lbs)
    moreover have "bs ! k \<in> set bs" using k lbs by simp
    ultimately show ?thesis using rand_bytes_range[of "bs ! k" len "snd (fast_random seed)"]
      by (simp add: bs_def)
  qed
  have p5: "buf' ! (len + 1) = xor_all bs" by (simp add: buf'_def nth_append lbs)
  have p6: "buf' ! j = buf ! j" if "len + 1 < j \<and> j < length buf" for j
  proof -
    define k where "k = j - (len + 2)"
    have j: "j = len + 2 + k" using that unfolding k_def by linarith
    have "buf' ! j = drop (len + 2) buf ! k"
      by (simp add: buf'_def j nth_append lbs)
    then show ?thesis using that by (simp add: j)
  qed
  have all: "generate_message buf buflen seed =
          Inr (of_nat (len + 2), buf', snd (rand_bytes len (snd (fast_random seed)))) \<and>
        len = chosen_len buflen seed \<and> len < unat buflen - 2 \<and>
        length buf' = length buf \<and>
        buf' ! 0 = of_nat len \<and>
        take len (drop 1 buf') = fst (rand_bytes len (snd (fast_random seed))) \<and>
        (\<forall>j. 1 \<le> j \<and> j \<le> len \<longrightarrow> 33 \<le> buf' ! j \<and> buf' ! j \<le> 125) \<and>
        buf' ! (len + 1) = xor_all (take len (drop 1 buf')) \<and>
        (\<forall>j. len + 1 < j \<and> j < length buf \<longrightarrow> buf' ! j = buf ! j)"
  proof (intro conjI allI impI)
    show "generate_message buf buflen seed =
          Inr (of_nat (len + 2), buf', snd (rand_bytes len (snd (fast_random seed))))" by (rule g)
    show "len = chosen_len buflen seed" by (rule len_def)
    show "len < unat buflen - 2" by (rule lt)
    show "length buf' = length buf" by (rule p1)
    show "buf' ! 0 = of_nat len" by (rule p2)
    show "take len (drop 1 buf') = fst (rand_bytes len (snd (fast_random seed)))"
      unfolding p3 by (rule bs_def)
    show "buf' ! (len + 1) = xor_all (take len (drop 1 buf'))" unfolding p3 by (rule p5)
    show "33 \<le> buf' ! j" if "1 \<le> j \<and> j \<le> len" for j using p4[OF that] ..
    show "buf' ! j \<le> 125" if "1 \<le> j \<and> j \<le> len" for j using p4[OF that] ..
    show "buf' ! j = buf ! j" if "len + 1 < j \<and> j < length buf" for j by (rule p6[OF that])
  qed
  show "\<exists>len buf' seed'.
        generate_message buf buflen seed = Inr (of_nat (len + 2), buf', seed') \<and>
        len = chosen_len buflen seed \<and> len < unat buflen - 2 \<and>
        length buf' = length buf \<and>
        buf' ! 0 = of_nat len \<and>
        take len (drop 1 buf') = fst (rand_bytes len (snd (fast_random seed))) \<and>
        (\<forall>j. 1 \<le> j \<and> j \<le> len \<longrightarrow> 33 \<le> buf' ! j \<and> buf' ! j \<le> 125) \<and>
        buf' ! (len + 1) = xor_all (take len (drop 1 buf')) \<and>
        (\<forall>j. len + 1 < j \<and> j < length buf \<longrightarrow> buf' ! j = buf ! j)"
    by (rule exI[of _ len], rule exI[of _ buf'], rule exI, rule all)
qed


theorem generate_message_post_witness:
  "\<exists>len buf' seed'.
        generate_message (replicate 256 0) 255 5381 = Inr (of_nat (len + 2), buf', seed') \<and>
        len = chosen_len 255 5381 \<and> len < 253 \<and>
        length buf' = 256 \<and>
        buf' ! 0 = of_nat len \<and>
        take len (drop 1 buf') = fst (rand_bytes len (snd (fast_random 5381))) \<and>
        (\<forall>j. 1 \<le> j \<and> j \<le> len \<longrightarrow> 33 \<le> buf' ! j \<and> buf' ! j \<le> 125) \<and>
        buf' ! (len + 1) = xor_all (take len (drop 1 buf')) \<and>
        (\<forall>j. len + 1 < j \<and> j < 256 \<longrightarrow> buf' ! j = 0)"
  using generate_message_post[of 255 "replicate 256 0" 5381] by simp

text \<open>
  Claim C9 (zero-length frame). When the payload length that \<open>generate_message\<close>
  chooses (the first random number modulo \<open>buflen - 2\<close>, line 57) is 0, it writes the
  length byte 0 and the checksum byte 0 into the first two bytes of the buffer, leaves
  the rest of the buffer as it was and returns 2; and \<open>verify_message\<close> on a buffer that
  starts with these two bytes returns 2. The buffer has at least the two bytes written,
  and \<open>buflen\<close> is not 2, where the modulus would be 0.
\<close>

theorem zero_length_frame:
  "(ucast (fst (fast_random seed) mod (buflen - 2)) :: u32) = 0 \<and> buflen \<noteq> 2 \<and>
     2 \<le> length buf \<longrightarrow>
   generate_message buf buflen seed = Inr (2, 0 # 0 # drop 2 buf, snd (fast_random seed)) \<and>
   verify_message (0 # 0 # rest) = Inr 2"
proof
  assume a: "(ucast (fst (fast_random seed) mod (buflen - 2)) :: u32) = 0 \<and> buflen \<noteq> 2 \<and>
     2 \<le> length buf"
  have "unat (ucast (fst (fast_random seed) mod (buflen - 2)) :: u32) = 0" using a by simp
  then have z: "0 = chosen_len buflen seed" unfolding unat_chosen_len by simp
  have g: "generate_message buf buflen seed = Inr (2, 0 # 0 # drop 2 buf, snd (fast_random seed))"
  proof -
    have nz: "buflen \<noteq> 2" using a by simp
    have fits: "0 + 2 \<le> length buf" using a by simp
    have small: "0 + 2 < (2::nat) ^ 32" by simp
    show ?thesis
      using generate_message_eq[OF nz z fits small refl] by (simp add: numeral_2_eq_2)
  qed
  have v: "verify_message (0 # 0 # rest) = Inr 2"
    using verify_message_frame[of "[]" 0 rest] by simp
  from g v show "generate_message buf buflen seed = Inr (2, 0 # 0 # drop 2 buf, snd (fast_random seed)) \<and>
   verify_message (0 # 0 # rest) = Inr 2" ..
qed

theorem zero_length_frame_witness:
  "generate_message [7, 7] 3 5381 = Inr (2, [0, 0], snd (fast_random 5381)) \<and>
   verify_message [0, 0] = Inr 2"
  using zero_length_frame[of 5381 3 "[7, 7]" "[]"] by simp

section \<open>Runs\<close>

lemma gexec_Nil: "gexec [] g = (g, [])"
  by (simp add: gexec_def)

lemma gexec_snoc:
  "gexec (ss @ [s]) g =
     (fst (gstep s (fst (gexec ss g))), snd (gexec ss g) @ snd (gstep s (fst (gexec ss g))))"
  by (simp add: gexec_def split_beta Let_def)

lemma gexec_invariant:
  fixes g0 :: gstate
  assumes "P g0 []"
    and "\<And>g tr s. P g tr \<Longrightarrow> P (fst (gstep s g)) (tr @ snd (gstep s g))"
  shows "P (fst (gexec ss g0)) (snd (gexec ss g0))"
proof (induction ss rule: rev_induct)
  case Nil
  show ?case using assms(1) by (simp add: gexec_Nil)
next
  case (snoc s ss)
  show ?case unfolding gexec_snoc fst_conv snd_conv by (rule assms(2)[OF snoc])
qed

lemma events_of_Nil: "events_of i [] = []"
  by (simp add: events_of_def)

lemma events_of_append_worker:
  "events_of i (tr @ map (Pair j) evs) = events_of i tr @ (if i = j then evs else [])"
  by (induction evs) (simp_all add: events_of_def comp_def)

lemma gstep_cases:
  fixes g :: gstate
  obtains (stuck) "gstep s g = (g, [])"
  | (ding) "gstep s g = (g\<lparr>stop := True\<rparr>, [])"
  | (work) i e where "s = Step i e" and "i < length (workers g)"
      and "gstep s g =
        (g\<lparr>rbuf := fst (snd (ringbuf_stress_step e (stop g) (rbuf g) (workers g ! i))),
           workers := (workers g)[i := fst (ringbuf_stress_step e (stop g) (rbuf g) (workers g ! i))]\<rparr>,
         map (Pair i) (snd (snd (ringbuf_stress_step e (stop g) (rbuf g) (workers g ! i)))))"
proof (cases "aborted g")
  case True
  then have "gstep s g = (g, [])" by (simp add: gstep_def)
  then show ?thesis by (rule stuck)
next
  case notab: False
  show ?thesis
  proof (cases s)
    case Ding
    then have "gstep s g = (g\<lparr>stop := True\<rparr>, [])" using notab by (simp add: gstep_def)
    then show ?thesis by (rule ding)
  next
    case (Step i e)
    show ?thesis
    proof (cases "i < length (workers g)")
      case True
      then have "gstep s g =
        (g\<lparr>rbuf := fst (snd (ringbuf_stress_step e (stop g) (rbuf g) (workers g ! i))),
           workers := (workers g)[i := fst (ringbuf_stress_step e (stop g) (rbuf g) (workers g ! i))]\<rparr>,
         map (Pair i) (snd (snd (ringbuf_stress_step e (stop g) (rbuf g) (workers g ! i)))))"
        using notab Step by (simp add: gstep_def split_beta)
      with Step True show ?thesis by (rule work)
    next
      case False
      then have "gstep s g = (g, [])" using notab Step by (simp add: gstep_def)
      then show ?thesis by (rule stuck)
    qed
  qed
qed

lemma worker_invariant:
  assumes init: "\<And>i. i < n \<Longrightarrow> Q (init_worker i) []"
    and step: "\<And>e stp rb w evs0. Q w evs0 \<Longrightarrow>
         Q (fst (ringbuf_stress_step e stp rb w)) (evs0 @ snd (snd (ringbuf_stress_step e stp rb w)))"
  shows "length (workers (fst (gexec ss (run_test_init n)))) = n \<and>
    (\<forall>i<n. Q (workers (fst (gexec ss (run_test_init n))) ! i)
              (events_of i (snd (gexec ss (run_test_init n)))))"
proof (rule gexec_invariant[where P = "\<lambda>g tr. length (workers g) = n \<and>
    (\<forall>i<n. Q (workers g ! i) (events_of i tr))"])
  show "length (workers (run_test_init n)) = n \<and>
    (\<forall>i<n. Q (workers (run_test_init n) ! i) (events_of i []))"
    using init by (simp add: run_test_init_def events_of_Nil)
next
  fix g :: gstate and tr s
  assume inv: "length (workers g) = n \<and> (\<forall>i<n. Q (workers g ! i) (events_of i tr))"
  show "length (workers (fst (gstep s g))) = n \<and>
    (\<forall>i<n. Q (workers (fst (gstep s g)) ! i) (events_of i (tr @ snd (gstep s g))))"
  proof (cases s g rule: gstep_cases)
    case stuck
    then show ?thesis using inv by simp
  next
    case ding
    then show ?thesis using inv by simp
  next
    case (work j e)
    have "Q (workers (fst (gstep s g)) ! i) (events_of i (tr @ snd (gstep s g)))" if "i < n" for i
    proof (cases "i = j")
      case True
      then show ?thesis
        using inv that step[of "workers g ! j" "events_of j tr" e "stop g" "rbuf g"]
        unfolding work(3) by (simp add: events_of_append_worker)
    next
      case False
      then show ?thesis
        using inv that unfolding work(3) by (simp add: events_of_append_worker)
    qed
    then show ?thesis using inv unfolding work(3) by simp
  qed
qed

section \<open>Steps of a worker\<close>

lemma decode_loop_events:
  "\<forall>ev \<in> set (fst (decode_loop rb off rem)). \<exists>off' r. ev = Verify off' r"
proof (induction rb off rem rule: decode_loop.induct)
  case (1 rb off rem)
  show ?case
  proof (cases "rem = 0")
    case True
    then show ?thesis by (simp add: decode_loop.simps)
  next
    case False
    show ?thesis
    proof (cases "verify_message (drop (unat off) rb)")
      case (Inl f)
      then show ?thesis using False by (subst decode_loop.simps) simp
    next
      case (Inr ret)
      show ?thesis
      proof (cases "0 <s ret \<and> ret \<le>s rem")
        case True
        then show ?thesis
          using "1.IH"[OF False Inr] False Inr
          by (subst decode_loop.simps) (simp add: split_beta)
      next
        case no: False
        then show ?thesis using False Inr
          by (subst decode_loop.simps) auto
      qed
    qed
  qed
qed

lemma decode_loop_abort:
  "snd (decode_loop rb off rem) = Some a \<Longrightarrow> a \<noteq> AssertOffset \<and> a \<noteq> AssertGuard"
proof (induction rb off rem rule: decode_loop.induct)
  case (1 rb off rem)
  show ?case
  proof (cases "rem = 0")
    case True
    then show ?thesis using "1.prems" by (simp add: decode_loop.simps)
  next
    case False
    show ?thesis
    proof (cases "verify_message (drop (unat off) rb)")
      case (Inl f)
      then show ?thesis using "1.prems" False
        by (subst (asm) decode_loop.simps) auto
    next
      case (Inr ret)
      show ?thesis
      proof (cases "0 <s ret \<and> ret \<le>s rem")
        case True
        then have "snd (decode_loop rb (off + ret) (rem - ret)) = Some a"
          using "1.prems" False Inr
          by (subst (asm) decode_loop.simps) (simp add: split_beta)
        then show ?thesis using "1.IH"[OF False Inr] True by simp
      next
        case no: False
        then show ?thesis using "1.prems" False Inr
          by (subst (asm) decode_loop.simps) (auto split: if_splits)
      qed
    qed
  qed
qed

lemma ringbuf_stress_step_Decode:
  assumes "pc w = Decode len off"
  shows "ringbuf_stress_step e stp rb w =
    (w\<lparr>pc := (case snd (decode_loop rb off len) of
                 Some a \<Rightarrow> Aborted a
               | None \<Rightarrow> DoRelease len)\<rparr>,
     rb, fst (decode_loop rb off len))"
  using assms
  by (cases "decode_loop rb off len")
     (simp add: ringbuf_stress_step_def split: option.splits)








lemma BUF_SIZE_eq: "BUF_SIZE = 256"
  by (simp add: BUF_SIZE_def RBUF_SIZE_def)

lemma length_gen_payload: "length (gen_payload seed) < 253"
proof -
  have "chosen_len 255 seed < unat (255 :: size_t) - 2"
    by (rule chosen_len_bound(1)) simp_all
  then show ?thesis by (simp add: gen_payload_def length_rand_bytes BUF_SIZE_eq)
qed

lemma generate_message_closed:
  assumes "length buf = BUF_SIZE"
  shows "generate_message buf (of_nat (BUF_SIZE - 1)) seed =
    Inr (of_nat (length (gen_payload seed) + 2),
         frame (gen_payload seed) @ drop (length (gen_payload seed) + 2) buf,
         gen_seed seed)"
proof -
  have l: "length (gen_payload seed) = chosen_len 255 seed"
    by (simp add: gen_payload_def length_rand_bytes BUF_SIZE_eq)
  have "generate_message buf 255 seed =
    Inr (of_nat (chosen_len 255 seed + 2),
         of_nat (chosen_len 255 seed) # gen_payload seed @ xor_all (gen_payload seed) #
           drop (chosen_len 255 seed + 2) buf,
         snd (rand_bytes (chosen_len 255 seed) (snd (fast_random seed))))"
    by (rule generate_message_frame) (simp_all add: assms BUF_SIZE_eq gen_payload_def)
  then show ?thesis
    by (simp add: l[symmetric] frame_def gen_seed_def BUF_SIZE_eq del: of_nat_add)
qed

lemma unat_gen_ret:
  "unat (of_nat (length (gen_payload seed) + 2) :: 64 word) = length (gen_payload seed) + 2"
  by (subst unat_of_nat) (use length_gen_payload[of seed] in simp)

lemma length_frame: "length (frame p) = length p + 2"
  by (simp add: frame_def)

lemma ringbuf_stress_step_Generate:
  assumes "pc w = Generate"
  shows "ringbuf_stress_step e stp rb w =
    (w\<lparr>pc := DoAcquire (frame (gen_payload (fast_random_seed w)) @
              drop (length (gen_payload (fast_random_seed w)) + 2)
                (map (stack_bytes e) [0..<BUF_SIZE]))
            (of_nat (length (gen_payload (fast_random_seed w)) + 2)),
       fast_random_seed := gen_seed (fast_random_seed w)\<rparr>,
     rb, [Generated (frame (gen_payload (fast_random_seed w)))])"
proof -
  have g: "generate_message (map (stack_bytes e) [0..<BUF_SIZE]) (of_nat (BUF_SIZE - 1))
      (fast_random_seed w) =
    Inr (of_nat (length (gen_payload (fast_random_seed w)) + 2),
         frame (gen_payload (fast_random_seed w)) @
           drop (length (gen_payload (fast_random_seed w)) + 2) (map (stack_bytes e) [0..<BUF_SIZE]),
         gen_seed (fast_random_seed w))"
    by (rule generate_message_closed) simp
  show ?thesis
    unfolding ringbuf_stress_step_def assms pc.case g sum.case prod.case unat_gen_ret
    by (simp add: length_frame)
qed

section \<open>The messages of a producer\<close>

lemma length_replicate_BUF: "length (replicate BUF_SIZE (0 :: u8)) = BUF_SIZE"
  by simp

lemma nth_seed_Suc: "nth_seed (Suc k) = gen_seed (nth_seed k)"
  unfolding nth_seed.simps generate_message_closed[OF length_replicate_BUF] by simp

declare nth_seed.simps(2) [simp del]

lemma nth_message_eq: "nth_message k = frame (gen_payload (nth_seed k))"
  unfolding nth_message_def generate_message_closed[OF length_replicate_BUF] sum.case prod.case
    unat_gen_ret
  by (simp add: length_frame)

lemma generated_append: "generated (evs0 @ evs) = generated evs0 @ generated evs"
  by (induction evs0 rule: generated.induct) simp_all

lemma generated_Verify:
  "\<forall>ev \<in> set evs. \<exists>off' ret. ev = Verify off' ret \<Longrightarrow> generated evs = []"
  by (induction evs rule: generated.induct) auto

lemma ringbuf_stress_step_in_sequence:
  assumes "in_sequence w evs0"
  shows "in_sequence (fst (ringbuf_stress_step e stp rb w)) (evs0 @ snd (snd (ringbuf_stress_step e stp rb w)))"
proof (cases "pc w")
  case Generate
  show ?thesis
    using assms unfolding ringbuf_stress_step_Generate[OF Generate] in_sequence_def
    by (simp add: generated_append nth_message_eq nth_seed_Suc)
next
  case (Decode len off)
  show ?thesis
    using Decode assms generated_Verify[OF decode_loop_events[of rb off len]]
    unfolding ringbuf_stress_step_Decode[OF Decode]
    by (simp add: in_sequence_def generated_append)
qed (use assms in \<open>auto simp: ringbuf_stress_step_def in_sequence_def generated_append Let_def
       split: sum.splits prod.splits\<close>)

lemma prefix_map_upt: "a \<le> b \<Longrightarrow> prefix (map f [0..<a]) (map f [0..<b])"
proof -
  assume "a \<le> b"
  then have "[0..<b] = [0..<a] @ [a..<b]"
    by (metis le_add_diff_inverse upt_add_eq_append zero_le)
  then have "map f [0..<b] = map f [0..<a] @ map f [a..<b]" by simp
  then show ?thesis by (simp add: prefix_def)
qed

text \<open>
  Claim C10 (identical random sequences across threads). \<open>fast_random\<close> is a function of
  the seed alone: equal seeds give equal results and equal next seeds. Every worker
  starts with the seed 5381. In every run, under every schedule and every behaviour of
  the ring buffer, the messages that a worker has generated so far are the first
  messages of one fixed sequence, \<open>nth_message 0\<close>, \<open>nth_message 1\<close>, ..., whatever the
  uninitialised buffer held, and its seed is the seed of that sequence after as many
  messages. So of the message sequences of two workers one is a prefix of the other,
  and two workers that have generated equally many messages have generated the same
  messages and hold the same seed.
\<close>

theorem identical_sequences:
  "(s1 = s2 \<longrightarrow> fast_random s1 = fast_random s2) \<and>
   (i < n \<longrightarrow> fast_random_seed (workers (run_test_init n) ! i) = 5381) \<and>
   (i < n \<and> j < n \<and> tr = snd (gexec ss (run_test_init n)) \<and> g = fst (gexec ss (run_test_init n)) \<longrightarrow>
      generated (events_of i tr) = map nth_message [0..<length (generated (events_of i tr))] \<and>
      fast_random_seed (workers g ! i) = nth_seed (length (generated (events_of i tr))) \<and>
      (prefix (generated (events_of i tr)) (generated (events_of j tr)) \<or>
       prefix (generated (events_of j tr)) (generated (events_of i tr))) \<and>
      (length (generated (events_of i tr)) = length (generated (events_of j tr)) \<longrightarrow>
         generated (events_of i tr) = generated (events_of j tr) \<and>
         fast_random_seed (workers g ! i) = fast_random_seed (workers g ! j)))"
proof (intro conjI impI)
  assume "s1 = s2"
  then show "fast_random s1 = fast_random s2" by simp
next
  assume "i < n"
  then show "fast_random_seed (workers (run_test_init n) ! i) = 5381"
    by (simp add: run_test_init_def init_worker_def fast_random_seed0_def)
next
  assume a: "i < n \<and> j < n \<and> tr = snd (gexec ss (run_test_init n)) \<and> g = fst (gexec ss (run_test_init n))"
  have inv: "\<forall>k<n. in_sequence (workers g ! k) (events_of k tr)"
    using worker_invariant[where Q = in_sequence and n = n and ss = ss] a ringbuf_stress_step_in_sequence
    by (simp add: in_sequence_def init_worker_def)
  have si: "in_sequence (workers g ! i) (events_of i tr)"
    and sj: "in_sequence (workers g ! j) (events_of j tr)"
    using inv a by simp_all
  show gi: "generated (events_of i tr) = map nth_message [0..<length (generated (events_of i tr))]"
    using si by (simp add: in_sequence_def)
  show "fast_random_seed (workers g ! i) = nth_seed (length (generated (events_of i tr)))"
    using si by (simp add: in_sequence_def)
  have gj: "generated (events_of j tr) = map nth_message [0..<length (generated (events_of j tr))]"
    using sj by (simp add: in_sequence_def)
  show "prefix (generated (events_of i tr)) (generated (events_of j tr)) \<or>
       prefix (generated (events_of j tr)) (generated (events_of i tr))"
  proof (cases "length (generated (events_of i tr)) \<le> length (generated (events_of j tr))")
    case True
    then show ?thesis using prefix_map_upt[OF True, of nth_message] gi gj by metis
  next
    case False
    then have "length (generated (events_of j tr)) \<le> length (generated (events_of i tr))" by simp
    then show ?thesis using prefix_map_upt[of _ _ nth_message] gi gj by metis
  qed
  {
    assume eq: "length (generated (events_of i tr)) = length (generated (events_of j tr))"
    show "generated (events_of i tr) = generated (events_of j tr)"
      using gi gj eq by metis
    show "fast_random_seed (workers g ! i) = fast_random_seed (workers g ! j)"
      using si sj eq by (simp add: in_sequence_def)
  }
qed

section \<open>Offsets and the guard byte\<close>




lemma memcpy_guard:
  assumes "memcpy rb off buf n = Inr rb'" and "off + n \<le> RBUF_SIZE"
    and "length rb = RBUF_SIZE + 1"
  shows "length rb' = RBUF_SIZE + 1" and "rb' ! RBUF_SIZE = rb ! RBUF_SIZE"
proof -
  from assms(1) have n: "n \<le> length buf" and le: "off + n \<le> length rb"
    and rb': "rb' = take off rb @ take n buf @ drop (off + n) rb"
    by (auto simp: memcpy_def split: if_splits)
  show "length rb' = RBUF_SIZE + 1" using n le assms(3) by (simp add: rb')
  have l: "length (take off rb @ take n buf) = off + n"
    using n le by simp
  have "rb' = (take off rb @ take n buf) @ drop (off + n) rb"
    by (simp add: rb')
  then have "rb' ! RBUF_SIZE = drop (off + n) rb ! (RBUF_SIZE - (off + n))"
    using assms(2) by (simp only: nth_append l) simp
  also have "\<dots> = rb ! (off + n + (RBUF_SIZE - (off + n)))"
    using le by (intro nth_drop) 
  also have "\<dots> = rb ! RBUF_SIZE"
    using assms(2) by simp
  finally show "rb' ! RBUF_SIZE = rb ! RBUF_SIZE" .
qed

lemma ringbuf_stress_step_guard:
  assumes "length rb = RBUF_SIZE + 1" and "rb ! RBUF_SIZE = MAGIC_BYTE"
    and "\<forall>ev \<in> set (snd (snd (ringbuf_stress_step e stp rb w))). copy_in_bounded ev"
    and "pc w \<noteq> Aborted AssertGuard"
  shows "length (fst (snd (ringbuf_stress_step e stp rb w))) = RBUF_SIZE + 1 \<and>
         fst (snd (ringbuf_stress_step e stp rb w)) ! RBUF_SIZE = MAGIC_BYTE \<and>
         pc (fst (ringbuf_stress_step e stp rb w)) \<noteq> Aborted AssertGuard"
proof (cases "pc w")
  case (Decode len off)
  show ?thesis
    using assms(1,2) decode_loop_abort[of rb off len]
    unfolding ringbuf_stress_step_Decode[OF Decode]
    by (simp split: option.splits)
next
  case Generate
  show ?thesis using assms(1,2) unfolding ringbuf_stress_step_Generate[OF Generate] by simp
next
  case (DoCopy off buf len)
  show ?thesis
  proof (cases "memcpy rb (unat off) buf (unat len)")
    case (Inl f)
    then show ?thesis using DoCopy assms(1,2) by (simp add: ringbuf_stress_step_def)
  next
    case (Inr rb')
    have "unat off + unat len \<le> RBUF_SIZE"
      using assms(3) DoCopy Inr by (simp add: ringbuf_stress_step_def copy_in_bounded_def)
    then show ?thesis
      using DoCopy Inr assms(1,2) memcpy_guard[OF Inr] by (simp add: ringbuf_stress_step_def)
  qed
qed (use assms in \<open>auto simp: ringbuf_stress_step_def Let_def split: sum.splits prod.splits\<close>)

lemma gstep_guard_intact:
  fixes g :: gstate
  assumes "guard_intact g tr"
  shows "guard_intact (fst (gstep s g)) (tr @ snd (gstep s g))"
proof (cases s g rule: gstep_cases)
  case stuck
  then show ?thesis using assms by (simp add: guard_intact_def)
next
  case ding
  then show ?thesis using assms by (simp add: guard_intact_def)
next
  case (work i e)
  define r where "r = ringbuf_stress_step e (stop g) (rbuf g) (workers g ! i)"
  have gs: "gstep s g = (g\<lparr>rbuf := fst (snd r), workers := (workers g)[i := fst r]\<rparr>,
      map (Pair i) (snd (snd r)))"
    using work(3) by (simp add: r_def)
  show ?thesis
    unfolding guard_intact_def
  proof (intro impI)
    assume b: "\<forall>x \<in> set (tr @ snd (gstep s g)). copy_in_bounded (snd x)"
    then have old: "length (rbuf g) = RBUF_SIZE + 1" "rbuf g ! RBUF_SIZE = MAGIC_BYTE"
      "\<forall>w \<in> set (workers g). pc w \<noteq> Aborted AssertGuard"
      using assms by (auto simp: guard_intact_def)
    have ev: "\<forall>ev \<in> set (snd (snd r)). copy_in_bounded ev"
    proof
      fix ev
      assume "ev \<in> set (snd (snd r))"
      then have "(i, ev) \<in> set (tr @ snd (gstep s g))" by (simp add: gs)
      with b have "copy_in_bounded (snd (i, ev))" by blast
      then show "copy_in_bounded ev" by simp
    qed
    have wi: "pc (workers g ! i) \<noteq> Aborted AssertGuard"
      using old(3) work(2) by simp
    have new: "length (fst (snd r)) = RBUF_SIZE + 1 \<and> fst (snd r) ! RBUF_SIZE = MAGIC_BYTE \<and>
         pc (fst r) \<noteq> Aborted AssertGuard"
      unfolding r_def by (rule ringbuf_stress_step_guard[OF old(1,2) ev[unfolded r_def] wi])
    have "\<forall>w \<in> set ((workers g)[i := fst r]). pc w \<noteq> Aborted AssertGuard"
      using old(3) new set_update_subset_insert[of "workers g" i "fst r"] by auto
    then show "length (rbuf (fst (gstep s g))) = RBUF_SIZE + 1 \<and>
        rbuf (fst (gstep s g)) ! RBUF_SIZE = MAGIC_BYTE \<and>
        (\<forall>w \<in> set (workers (fst (gstep s g))). pc w \<noteq> Aborted AssertGuard)"
      using new by (simp add: gs)
  qed
qed

text \<open>
  Claim C4 (guard byte). \<open>run_test\<close> sets the byte of \<open>rbuf\<close> at index \<open>RBUF_SIZE\<close>, the
  guard byte after the region, to \<open>MAGIC_BYTE\<close>. In every run, under every schedule and
  every behaviour of the ring buffer, in which every copy-in of a producer ends inside
  the region (\<open>off + len \<le> RBUF_SIZE\<close>), the guard byte is \<open>MAGIC_BYTE\<close> at every moment,
  so at every check at the top of the loop, and no worker has failed the assertion
  \<open>rbuf[RBUF_SIZE] == MAGIC_BYTE\<close> (line 106).
\<close>

theorem guard_byte:
  "rbuf (run_test_init n) ! RBUF_SIZE = MAGIC_BYTE \<and>
   (tr = snd (gexec ss (run_test_init n)) \<and> g = fst (gexec ss (run_test_init n)) \<and>
    (\<forall>x \<in> set tr. copy_in_bounded (snd x)) \<longrightarrow>
      rbuf g ! RBUF_SIZE = MAGIC_BYTE \<and>
      (\<forall>w \<in> set (workers g). pc w \<noteq> Aborted AssertGuard))"
proof (intro conjI impI)
  show "rbuf (run_test_init n) ! RBUF_SIZE = MAGIC_BYTE"
    by (simp add: run_test_init_def nth_replicate del: replicate_Suc replicate.simps)
next
  assume a: "tr = snd (gexec ss (run_test_init n)) \<and> g = fst (gexec ss (run_test_init n)) \<and>
    (\<forall>x \<in> set tr. copy_in_bounded (snd x))"
  have "guard_intact (run_test_init n) []"
    by (simp add: guard_intact_def run_test_init_def init_worker_def nth_replicate
        del: replicate_Suc replicate.simps)
  then have "guard_intact g tr"
    using gexec_invariant[where P = guard_intact and ?g0.0 = "run_test_init n" and ss = ss]
      gstep_guard_intact a by simp
  then show "rbuf g ! RBUF_SIZE = MAGIC_BYTE"
    and "\<forall>w \<in> set (workers g). pc w \<noteq> Aborted AssertGuard"
    using a by (simp_all add: guard_intact_def)
qed

section \<open>One iteration of a worker\<close>

lemma unat_of_nat_small: "k < 2 ^ 63 \<Longrightarrow> unat (of_nat k :: 64 word) = k"
  by (subst unat_of_nat) simp

lemma sint_small:
  fixes w :: "64 word"
  assumes "unat w < 2 ^ 63"
  shows "sint w = int (unat w)"
proof -
  have "uint w < 2 ^ 63" using assms by (simp add: unat_eq_nat_uint del: nat_uint_eq)
  moreover have "- (2 ^ 63) \<le> uint w"
    by (rule order_trans[of _ 0]) simp_all
  ultimately have "signed_take_bit 63 (uint w) = uint w"
    by (simp add: signed_take_bit_int_eq_self)
  then show ?thesis by (simp add: sint_uint)
qed

lemma decode_loop_frames:
  assumes "\<forall>p \<in> set ps. length p < 256"
    and "take (unat len) (drop (unat off) rb) = concat (map frame ps)"
    and "unat off + unat len \<le> length rb"
    and "length rb < 2 ^ 63"
  shows "decode_loop rb off len = (verify_events off ps, None)"
  using assms
proof (induction ps arbitrary: off len)
  case Nil
  then have "unat len = 0" by auto
  then have "len = 0" by (simp add: unat_eq_0)
  then show ?case by (simp add: decode_loop.simps)
next
  case (Cons p ps)
  define sz where "sz = length p + 2"
  define rest where "rest = concat (map frame ps)"
  have lp: "length p < 256" using Cons.prems(1) by simp
  have span: "take (unat len) (drop (unat off) rb) = frame p @ rest"
    using Cons.prems(2) by (simp add: rest_def)
  have ulen: "unat len = sz + length rest"
    using arg_cong[OF span, of length] Cons.prems(3) by (simp add: length_frame sz_def)
  have szb: "sz < 2 ^ 63" "2 \<le> sz" using lp by (simp_all add: sz_def)
  have usz: "unat (of_nat sz :: 64 word) = sz" by (rule unat_of_nat_small[OF szb(1)])
  have ne: "len \<noteq> 0" using ulen szb(2) by auto
  have dr: "drop (unat off) rb = frame p @ rest @ drop (unat off + unat len) rb"
  proof -
    have "drop (unat off) rb = take (unat len) (drop (unat off) rb) @ drop (unat len) (drop (unat off) rb)"
      by (rule append_take_drop_id[symmetric])
    also have "\<dots> = (frame p @ rest) @ drop (unat off + unat len) rb"
      unfolding span by (simp add: add.commute)
    finally show ?thesis by simp
  qed
  have v: "verify_message (drop (unat off) rb) = Inr (of_nat sz)"
    using verify_message_frame[OF lp, of "xor_all p" "rest @ drop (unat off + unat len) rb"]
    unfolding dr by (simp add: frame_def sz_def del: of_nat_add)
  have s1: "sint (of_nat sz :: 64 word) = int sz"
    using sint_small[of "of_nat sz :: 64 word"] szb by (simp add: usz del: of_nat_add)
  have s2: "sint len = int (unat len)"
    using Cons.prems(3,4) by (intro sint_small) linarith
  have pos: "0 <s (of_nat sz :: 64 word)"
    using szb unfolding word_sless_alt s1 by simp
  have inspan: "(of_nat sz :: 64 word) \<le>s len"
    unfolding word_sle_eq s1 s2 using ulen by simp
  have p1: "unat off + unat (of_nat sz :: 64 word) < 2 ^ LENGTH(64)"
    using Cons.prems(3,4) ulen unfolding usz by simp
  have uoff: "unat (off + of_nat sz) = unat off + sz"
    unfolding unat_add_small[OF p1] usz ..
  have "(of_nat sz :: 64 word) \<le> len" using ulen by (simp add: word_le_nat_alt usz)
  then have urem: "unat (len - of_nat sz) = length rest"
    using ulen by (simp add: unat_sub usz)
  have span': "take (unat (len - of_nat sz)) (drop (unat (off + of_nat sz)) rb) = concat (map frame ps)"
  proof -
    have "drop (unat off + sz) rb = drop sz (drop (unat off) rb)" by (simp add: add.commute)
    also have "\<dots> = rest @ drop (unat off + unat len) rb"
      unfolding dr by (simp add: length_frame sz_def)
    finally show ?thesis unfolding urem uoff by (simp add: rest_def)
  qed
  have IH: "decode_loop rb (off + of_nat sz) (len - of_nat sz) =
      (verify_events (off + of_nat sz) ps, None)"
  proof (rule Cons.IH)
    show "\<forall>p \<in> set ps. length p < 256" using Cons.prems(1) by simp
    show "take (unat (len - of_nat sz)) (drop (unat (off + of_nat sz)) rb) = concat (map frame ps)"
      by (rule span')
    show "unat (off + of_nat sz) + unat (len - of_nat sz) \<le> length rb"
      unfolding uoff urem using Cons.prems(3) ulen by simp
    show "length rb < 2 ^ 63" by (rule Cons.prems(4))
  qed
  have ve: "verify_events off (p # ps) =
      Verify off (Inr (of_nat sz)) # verify_events (off + of_nat sz) ps"
    unfolding sz_def by (rule verify_events.simps)
  show ?case
    unfolding ve using ne pos inspan
    by (subst decode_loop.simps) (simp add: v IH)
qed

lemma length_concat_frames:
  "length (concat (map frame ps)) = sum_list (map (\<lambda>p. length p + 2) ps)"
  by (induction ps) (simp_all add: length_frame)

text \<open>
  Claim C6 (the consumer consumes the whole span). Let \<open>ringbuf_consume\<close> answer a length
  \<open>len\<close> other than 0 and an offset \<open>off\<close>, and let the span of \<open>len\<close> bytes of \<open>rbuf\<close> at
  \<open>off\<close> lie inside the array and be the frames of the payloads \<open>ps\<close>, one after the
  other, each payload of fewer than 256 bytes. Then the consumer, from the call of
  \<open>ringbuf_consume\<close> on, decodes the frames in order, each at the offset where the one
  before ended and with its size (the payload length plus 2) as the result of
  \<open>verify_message\<close>; no assertion fails; the sizes add up to \<open>len\<close>; it calls
  \<open>ringbuf_release\<close> with \<open>len\<close>, leaves \<open>rbuf\<close> as it was and is back at the top of the
  loop.
\<close>

theorem consumer_span:
  "pc w = DoConsume \<and> consume_len e1 = len \<and> consume_off e1 = off \<and> len \<noteq> 0 \<and>
   length rb = RBUF_SIZE + 1 \<and> unat off + unat len \<le> length rb \<and>
   take (unat len) (drop (unat off) rb) = concat (map frame ps) \<and>
   (\<forall>p \<in> set ps. length p < 256) \<longrightarrow>
     ringbuf_stress_steps [e1, e2, e3] stp rb w =
       (w\<lparr>pc := LoopHead\<rparr>, rb, Consume len off # verify_events off ps @ [Release len]) \<and>
     sum_list (map (\<lambda>p. length p + 2) ps) = unat len"
proof
  assume a: "pc w = DoConsume \<and> consume_len e1 = len \<and> consume_off e1 = off \<and> len \<noteq> 0 \<and>
   length rb = RBUF_SIZE + 1 \<and> unat off + unat len \<le> length rb \<and>
   take (unat len) (drop (unat off) rb) = concat (map frame ps) \<and>
   (\<forall>p \<in> set ps. length p < 256)"
  from a have fits: "unat off + unat len \<le> length rb"
    and span: "take (unat len) (drop (unat off) rb) = concat (map frame ps)" by simp_all
  have "length (take (unat len) (drop (unat off) rb)) = unat len" using fits by simp
  then have total: "sum_list (map (\<lambda>p. length p + 2) ps) = unat len"
    unfolding span length_concat_frames .
  have "unat len \<noteq> 0" using a by (simp add: unat_eq_0)
  then obtain p ps' where "ps = p # ps'" using total by (cases ps) auto
  then have "2 \<le> unat len" using total by simp
  then have off: "unat off < RBUF_SIZE" using a by simp
  have big: "length rb < 2 ^ 63" using a by (simp add: RBUF_SIZE_def)
  have d: "decode_loop rb off len = (verify_events off ps, None)"
    using a big by (intro decode_loop_frames) simp_all
  have s1: "ringbuf_stress_step e1 stp rb w = (w\<lparr>pc := Decode len off\<rparr>, rb, [Consume len off])"
    using a off by (simp add: ringbuf_stress_step_def)
  have s2: "ringbuf_stress_step e2 stp rb (w\<lparr>pc := Decode len off\<rparr>) =
      (w\<lparr>pc := DoRelease len\<rparr>, rb, verify_events off ps)"
    by (simp add: ringbuf_stress_step_def d)
  have s3: "ringbuf_stress_step e3 stp rb (w\<lparr>pc := DoRelease len\<rparr>) = (w\<lparr>pc := LoopHead\<rparr>, rb, [Release len])"
    by (simp add: ringbuf_stress_step_def)
  have "ringbuf_stress_steps [e1, e2, e3] stp rb w =
       (w\<lparr>pc := LoopHead\<rparr>, rb, Consume len off # verify_events off ps @ [Release len])"
    by (simp add: s1 s2 s3)
  then show "ringbuf_stress_steps [e1, e2, e3] stp rb w =
       (w\<lparr>pc := LoopHead\<rparr>, rb, Consume len off # verify_events off ps @ [Release len]) \<and>
     sum_list (map (\<lambda>p. length p + 2) ps) = unat len" using total ..
qed

theorem consumer_span_witness:
  "ringbuf_stress_steps [\<lparr>consume_len = 6, consume_off = 0, acquire_ret = 0, stack_bytes = (\<lambda>i. 0)\<rparr>,
          \<lparr>consume_len = 0, consume_off = 0, acquire_ret = 0, stack_bytes = (\<lambda>i. 0)\<rparr>,
          \<lparr>consume_len = 0, consume_off = 0, acquire_ret = 0, stack_bytes = (\<lambda>i. 0)\<rparr>]
     False (frame [1, 2] @ frame [] @ replicate 507 MAGIC_BYTE)
     \<lparr>id_w = 0, fast_random_seed = 5381, pc = DoConsume\<rparr> =
   (\<lparr>id_w = 0, fast_random_seed = 5381, pc = LoopHead\<rparr>,
    frame [1, 2] @ frame [] @ replicate 507 MAGIC_BYTE,
    [Consume 6 0, Verify 0 (Inr 4), Verify 4 (Inr 2), Release 6])"
  using consumer_span[of "\<lparr>id_w = 0, fast_random_seed = 5381, pc = DoConsume\<rparr>"
      "\<lparr>consume_len = 6, consume_off = 0, acquire_ret = 0, stack_bytes = (\<lambda>i. 0)\<rparr>" 6 0
      "frame [1, 2] @ frame [] @ replicate 507 MAGIC_BYTE" "[[1, 2], []]"
      "\<lparr>consume_len = 0, consume_off = 0, acquire_ret = 0, stack_bytes = (\<lambda>i. 0)\<rparr>"
      "\<lparr>consume_len = 0, consume_off = 0, acquire_ret = 0, stack_bytes = (\<lambda>i. 0)\<rparr>" False]
  by (simp add: length_frame RBUF_SIZE_def)

text \<open>
  Claim C7 (a producer does nothing on a full buffer). When \<open>ringbuf_acquire\<close> answers
  \<open>-1\<close>, the step of the producer leaves \<open>rbuf\<close>, guard byte included, as it was, makes
  no other call of the ring buffer, does not abort and leads back to the top of the
  loop. So a whole iteration of a producer that starts at the top of the loop with
  \<open>stop\<close> clear and the guard byte intact, and in which \<open>ringbuf_acquire\<close> answers \<open>-1\<close>,
  generates its message, calls \<open>ringbuf_acquire\<close> and nothing else, leaves \<open>rbuf\<close> as it
  was and ends at the top of the loop, where the next iteration tries again.
\<close>

theorem producer_full:
  "(pc w' = DoAcquire buf' len' \<and> acquire_ret e = - 1 \<longrightarrow>
      ringbuf_stress_step e stp rb' w' = (w'\<lparr>pc := LoopHead\<rparr>, rb', [Acquire len' (- 1)])) \<and>
   (id_w w \<noteq> 0 \<and> pc w = LoopHead \<and> length rb = RBUF_SIZE + 1 \<and>
    rb ! RBUF_SIZE = MAGIC_BYTE \<and> acquire_ret e4 = - 1 \<longrightarrow>
      (\<exists>len buf seed'.
         generate_message (map (stack_bytes e3) [0..<BUF_SIZE]) (of_nat (BUF_SIZE - 1))
           (fast_random_seed w) = Inr (len, buf, seed') \<and>
         ringbuf_stress_steps [e1, e2, e3, e4] False rb w =
           (w\<lparr>pc := LoopHead, fast_random_seed := seed'\<rparr>, rb,
            [Generated (take (unat len) buf), Acquire len (- 1)])))"
proof (intro conjI impI)
  assume "pc w' = DoAcquire buf' len' \<and> acquire_ret e = - 1"
  then show "ringbuf_stress_step e stp rb' w' = (w'\<lparr>pc := LoopHead\<rparr>, rb', [Acquire len' (- 1)])"
    by (simp add: ringbuf_stress_step_def)
next
  assume a: "id_w w \<noteq> 0 \<and> pc w = LoopHead \<and> length rb = RBUF_SIZE + 1 \<and>
    rb ! RBUF_SIZE = MAGIC_BYTE \<and> acquire_ret e4 = - 1"
  define s where "s = fast_random_seed w"
  define len :: size_t where "len = of_nat (length (gen_payload s) + 2)"
  define buf where "buf = frame (gen_payload s) @
      drop (length (gen_payload s) + 2) (map (stack_bytes e3) [0..<BUF_SIZE])"
  have g: "generate_message (map (stack_bytes e3) [0..<BUF_SIZE]) (of_nat (BUF_SIZE - 1))
           (fast_random_seed w) = Inr (len, buf, gen_seed s)"
    unfolding len_def buf_def s_def by (rule generate_message_closed) simp
  have m: "take (unat len) buf = frame (gen_payload s)"
    unfolding len_def unat_gen_ret buf_def by (simp add: length_frame)
  have s1: "ringbuf_stress_step e1 False rb w = (w\<lparr>pc := CheckGuard\<rparr>, rb, [])"
    using a by (simp add: ringbuf_stress_step_def)
  have s2: "ringbuf_stress_step e2 False rb (w\<lparr>pc := CheckGuard\<rparr>) = (w\<lparr>pc := Generate\<rparr>, rb, [])"
    using a by (simp add: ringbuf_stress_step_def)
  have s3: "ringbuf_stress_step e3 False rb (w\<lparr>pc := Generate\<rparr>) =
      (w\<lparr>pc := DoAcquire buf len, fast_random_seed := gen_seed s\<rparr>, rb,
       [Generated (frame (gen_payload s))])"
    by (subst ringbuf_stress_step_Generate) (simp_all add: len_def buf_def s_def del: of_nat_add)
  have s4: "ringbuf_stress_step e4 False rb (w\<lparr>pc := DoAcquire buf len, fast_random_seed := gen_seed s\<rparr>) =
      (w\<lparr>pc := LoopHead, fast_random_seed := gen_seed s\<rparr>, rb, [Acquire len (- 1)])"
    using a by (simp add: ringbuf_stress_step_def)
  have "ringbuf_stress_steps [e1, e2, e3, e4] False rb w =
           (w\<lparr>pc := LoopHead, fast_random_seed := gen_seed s\<rparr>, rb,
            [Generated (take (unat len) buf), Acquire len (- 1)])"
    by (simp add: s1 s2 s3 s4 m)
  with g show "\<exists>len buf seed'.
         generate_message (map (stack_bytes e3) [0..<BUF_SIZE]) (of_nat (BUF_SIZE - 1))
           (fast_random_seed w) = Inr (len, buf, seed') \<and>
         ringbuf_stress_steps [e1, e2, e3, e4] False rb w =
           (w\<lparr>pc := LoopHead, fast_random_seed := seed'\<rparr>, rb,
            [Generated (take (unat len) buf), Acquire len (- 1)])"
    by blast
qed

section \<open>The order of the calls of a worker\<close>






section \<open>An example run\<close>

lemma gstep_Step:
  fixes g :: gstate
  assumes "\<not> aborted g" and "i < length (workers g)"
    and "ringbuf_stress_step e (stop g) (rbuf g) (workers g ! i) = (w', rb', evs)"
  shows "gstep (Step i e) g = (g\<lparr>rbuf := rb', workers := (workers g)[i := w']\<rparr>, map (Pair i) evs)"
  using assms by (simp add: gstep_def)

lemma gexec_step:
  fixes g :: gstate
  assumes "gexec ss g = (g', tr)" and "gstep s g' = (g'', evs)"
  shows "gexec (ss @ [s]) g = (g'', tr @ evs)"
  by (simp add: gexec_snoc assms)

lemma example_run:
  "gexec (take 4 example_sched) (run_test_init 2) = (copy_state, copy_trace)"
  "gexec example_sched (run_test_init 2) = (example_state, example_trace)"
proof -
  define P where "P = gen_payload 5381"
  define L :: size_t where "L = of_nat (length P + 2)"
  define rb where "rb = replicate (RBUF_SIZE + 1) MAGIC_BYTE"
  define buf where "buf = frame P @ drop (length P + 2) (map (stack_bytes grant_env) [0..<BUF_SIZE])"
  define w0 where "w0 = init_worker 0"
  define st where "st pc' s' rb' = \<lparr>rbuf = rb', stop = False,
      workers = [w0, \<lparr>id_w = 1, fast_random_seed = s', pc = pc'\<rparr>]\<rparr>" for pc' s' rb'
  define s where "s = Step 1 grant_env"
  have lP: "length P < 253" unfolding P_def by (rule length_gen_payload)
  have uL: "unat L = length P + 2" unfolding L_def P_def by (rule unat_gen_ret)
  have lrb: "length rb = RBUF_SIZE + 1" by (simp add: rb_def)
  have guard: "rb ! RBUF_SIZE = MAGIC_BYTE" unfolding rb_def by (rule nth_replicate) simp
  have lbuf: "length buf = BUF_SIZE" using lP by (simp add: buf_def length_frame BUF_SIZE_eq)
  have na: "\<not> aborted (st pc' s' rb')" if "\<forall>a. pc' \<noteq> Aborted a" for pc' s' rb'
    using that by (cases pc') (simp_all add: aborted_def st_def w0_def init_worker_def)
  have step: "gstep s (st pc' s' rb') = (st pc'' s'' rb'', map (Pair 1) evs)"
    if "\<forall>a. pc' \<noteq> Aborted a"
      and "ringbuf_stress_step grant_env False rb' \<lparr>id_w = 1, fast_random_seed = s', pc = pc'\<rparr> =
        (\<lparr>id_w = 1, fast_random_seed = s'', pc = pc''\<rparr>, rb'', evs)"
    for pc' s' rb' pc'' s'' rb'' evs
    unfolding s_def using that(2)
    by (subst gstep_Step[OF na[OF that(1)]]) (simp_all add: st_def)
  have i0: "gexec [] (run_test_init 2) = (st LoopHead 5381 rb, [])"
    by (simp add: gexec_Nil run_test_init_def st_def w0_def rb_def init_worker_def
        fast_random_seed0_def numeral_2_eq_2)
  have i1: "gexec [s] (run_test_init 2) = (st CheckGuard 5381 rb, [])"
  proof -
    have w: "ringbuf_stress_step grant_env False rb \<lparr>id_w = 1, fast_random_seed = 5381, pc = LoopHead\<rparr> =
        (\<lparr>id_w = 1, fast_random_seed = 5381, pc = CheckGuard\<rparr>, rb, [])"
      by (simp add: ringbuf_stress_step_def)
    show ?thesis using gexec_step[OF i0 step[OF _ w]] by simp
  qed
  have i2: "gexec [s, s] (run_test_init 2) = (st Generate 5381 rb, [])"
  proof -
    have w: "ringbuf_stress_step grant_env False rb \<lparr>id_w = 1, fast_random_seed = 5381, pc = CheckGuard\<rparr> =
        (\<lparr>id_w = 1, fast_random_seed = 5381, pc = Generate\<rparr>, rb, [])"
      by (simp add: ringbuf_stress_step_def lrb guard)
    show ?thesis using gexec_step[OF i1 step[OF _ w]] by simp
  qed
  have i3: "gexec [s, s, s] (run_test_init 2) =
      (st (DoAcquire buf L) (gen_seed 5381) rb, [(1, Generated (frame P))])"
  proof -
    have w: "ringbuf_stress_step grant_env False rb \<lparr>id_w = 1, fast_random_seed = 5381, pc = Generate\<rparr> =
        (\<lparr>id_w = 1, fast_random_seed = gen_seed 5381, pc = DoAcquire buf L\<rparr>, rb,
         [Generated (frame P)])"
      by (subst ringbuf_stress_step_Generate) (simp_all add: buf_def L_def P_def del: of_nat_add)
    show ?thesis using gexec_step[OF i2 step[OF _ w]] by simp
  qed
  have i4: "gexec [s, s, s, s] (run_test_init 2) =
      (st (DoCopy 0 buf L) (gen_seed 5381) rb,
       [(1, Generated (frame P)), (1, Acquire L 0)])"
  proof -
    have w: "ringbuf_stress_step grant_env False rb
          \<lparr>id_w = 1, fast_random_seed = gen_seed 5381, pc = DoAcquire buf L\<rparr> =
        (\<lparr>id_w = 1, fast_random_seed = gen_seed 5381, pc = DoCopy 0 buf L\<rparr>, rb,
         [Acquire L 0])"
      by (simp add: ringbuf_stress_step_def grant_env_def RBUF_SIZE_def)
    show ?thesis using gexec_step[OF i3 step[OF _ w]] by simp
  qed
  have cp: "memcpy rb 0 buf (unat L) = Inr (frame P @ drop (length P + 2) rb)"
    using lP by (simp add: memcpy_def uL lrb lbuf BUF_SIZE_eq RBUF_SIZE_def buf_def length_frame)
  have i5: "gexec [s, s, s, s, s] (run_test_init 2) =
      (st DoProduce (gen_seed 5381) (frame P @ drop (length P + 2) rb),
       [(1, Generated (frame P)), (1, Acquire L 0), (1, CopyIn 0 L)])"
  proof -
    have w: "ringbuf_stress_step grant_env False rb
          \<lparr>id_w = 1, fast_random_seed = gen_seed 5381, pc = DoCopy 0 buf L\<rparr> =
        (\<lparr>id_w = 1, fast_random_seed = gen_seed 5381, pc = DoProduce\<rparr>,
         frame P @ drop (length P + 2) rb, [CopyIn 0 L])"
      by (simp add: ringbuf_stress_step_def cp)
    show ?thesis using gexec_step[OF i4 step[OF _ w]] by simp
  qed
  have i6: "gexec [s, s, s, s, s, s] (run_test_init 2) =
      (st LoopHead (gen_seed 5381) (frame P @ drop (length P + 2) rb),
       [(1, Generated (frame P)), (1, Acquire L 0), (1, CopyIn 0 L), (1, Produce)])"
  proof -
    have w: "ringbuf_stress_step grant_env False (frame P @ drop (length P + 2) rb)
          \<lparr>id_w = 1, fast_random_seed = gen_seed 5381, pc = DoProduce\<rparr> =
        (\<lparr>id_w = 1, fast_random_seed = gen_seed 5381, pc = LoopHead\<rparr>,
         frame P @ drop (length P + 2) rb, [Produce])"
      by (simp add: ringbuf_stress_step_def)
    show ?thesis using gexec_step[OF i5 step[OF _ w]] by simp
  qed
  have sch: "example_sched = [s, s, s, s, s, s]"
    by (simp add: example_sched_def s_def numeral_eq_Suc)
  show "gexec (take 4 example_sched) (run_test_init 2) = (copy_state, copy_trace)"
    unfolding sch
    by (simp add: i4 copy_state_def copy_trace_def st_def w0_def P_def L_def rb_def buf_def
        del: of_nat_add replicate_Suc replicate.simps upt_Suc)
  show "gexec example_sched (run_test_init 2) = (example_state, example_trace)"
    unfolding sch i6
    by (simp add: example_state_def example_trace_def st_def w0_def P_def L_def rb_def
        del: of_nat_add replicate_Suc replicate.simps)
qed



section \<open>The claims on the example run\<close>

theorem guard_byte_witness:
  "rbuf (run_test_init 2) ! RBUF_SIZE = MAGIC_BYTE \<and>
   rbuf example_state ! RBUF_SIZE = MAGIC_BYTE \<and>
   pc (workers example_state ! 0) \<noteq> Aborted AssertGuard \<and>
   pc (workers example_state ! 1) \<noteq> Aborted AssertGuard"
proof -
  have "unat (of_nat (length (gen_payload 5381) + 2) :: 64 word) \<le> RBUF_SIZE"
    unfolding unat_gen_ret using length_gen_payload[of 5381] by (simp add: RBUF_SIZE_def)
  then have h: "\<forall>x \<in> set example_trace. copy_in_bounded (snd x)"
    by (simp add: example_trace_def copy_in_bounded_def)
  have m: "workers example_state ! 0 \<in> set (workers example_state)"
    "workers example_state ! 1 \<in> set (workers example_state)"
    by (simp_all add: example_state_def)
  show ?thesis
    using guard_byte[of 2 example_trace example_sched example_state] h m
    by (simp add: example_run)
qed




theorem identical_sequences_witness:
  "fast_random 5381 = fast_random 5381 \<and>
   fast_random_seed (workers (run_test_init 2) ! 1) = 5381 \<and>
   generated (events_of 1 example_trace) =
     map nth_message [0..<length (generated (events_of 1 example_trace))] \<and>
   fast_random_seed (workers example_state ! 1) =
     nth_seed (length (generated (events_of 1 example_trace))) \<and>
   (prefix (generated (events_of 1 example_trace)) (generated (events_of 0 example_trace)) \<or>
    prefix (generated (events_of 0 example_trace)) (generated (events_of 1 example_trace))) \<and>
   generated (events_of 1 []) = generated (events_of 2 []) \<and>
   fast_random_seed (workers (run_test_init 3) ! 1) =
     fast_random_seed (workers (run_test_init 3) ! 2)"
proof -
  have a: "fast_random_seed (workers (run_test_init 2) ! 1) = 5381 \<and>
   generated (events_of 1 example_trace) =
     map nth_message [0..<length (generated (events_of 1 example_trace))] \<and>
   fast_random_seed (workers example_state ! 1) =
     nth_seed (length (generated (events_of 1 example_trace))) \<and>
   (prefix (generated (events_of 1 example_trace)) (generated (events_of 0 example_trace)) \<or>
    prefix (generated (events_of 0 example_trace)) (generated (events_of 1 example_trace)))"
    using identical_sequences[of 5381 5381 1 2 0 example_trace example_sched example_state]
    by (simp add: example_run)
  have b: "generated (events_of 1 []) = generated (events_of 2 []) \<and>
   fast_random_seed (workers (run_test_init 3) ! 1) =
     fast_random_seed (workers (run_test_init 3) ! 2)"
  proof -
    have h: "(1::nat) < 3 \<and> (2::nat) < 3 \<and> [] = snd (gexec [] (run_test_init 3)) \<and>
        run_test_init 3 = fst (gexec [] (run_test_init 3))"
      by (simp add: gexec_Nil)
    have l: "length (generated (events_of 1 [])) = length (generated (events_of 2 []))"
      by (simp add: events_of_Nil)
    show ?thesis
      using identical_sequences[of 5381 5381 1 3 2 "[]" "[]" "run_test_init 3"] h l
      by blast
  qed
  from a b show ?thesis by blast
qed

theorem producer_full_witness:
  "ringbuf_stress_step (grant_env\<lparr>acquire_ret := - 1\<rparr>) False (rbuf (run_test_init 2))
      \<lparr>id_w = 1, fast_random_seed = 5381, pc = DoAcquire [0, 0] 2\<rparr> =
     (\<lparr>id_w = 1, fast_random_seed = 5381, pc = LoopHead\<rparr>, rbuf (run_test_init 2),
      [Acquire 2 (- 1)]) \<and>
   (\<exists>len buf seed'.
      generate_message (map (stack_bytes grant_env) [0..<BUF_SIZE]) (of_nat (BUF_SIZE - 1))
        (fast_random_seed (init_worker 1)) = Inr (len, buf, seed') \<and>
      ringbuf_stress_steps [grant_env, grant_env, grant_env, grant_env\<lparr>acquire_ret := - 1\<rparr>] False
          (rbuf (run_test_init 2)) (init_worker 1) =
        ((init_worker 1)\<lparr>pc := LoopHead, fast_random_seed := seed'\<rparr>, rbuf (run_test_init 2),
         [Generated (take (unat len) buf), Acquire len (- 1)]))"
proof -
  have h: "id_w (init_worker 1) \<noteq> 0 \<and> pc (init_worker 1) = LoopHead \<and>
      length (rbuf (run_test_init 2)) = RBUF_SIZE + 1 \<and>
      rbuf (run_test_init 2) ! RBUF_SIZE = MAGIC_BYTE \<and>
      acquire_ret (grant_env\<lparr>acquire_ret := - 1\<rparr>) = - 1"
    by (simp add: init_worker_def run_test_init_def nth_replicate del: replicate_Suc replicate.simps)
  have h': "pc \<lparr>id_w = 1, fast_random_seed = 5381, pc = DoAcquire [0, 0] 2\<rparr> = DoAcquire [0, 0] 2 \<and>
      acquire_ret (grant_env\<lparr>acquire_ret := - 1\<rparr>) = - 1"
    by simp
  show ?thesis
    using producer_full[of "\<lparr>id_w = 1, fast_random_seed = 5381, pc = DoAcquire [0, 0] 2\<rparr>"
        "[0, 0]" 2 "grant_env\<lparr>acquire_ret := - 1\<rparr>" False "rbuf (run_test_init 2)"
        "init_worker 1" "rbuf (run_test_init 2)" "grant_env\<lparr>acquire_ret := - 1\<rparr>"
        grant_env grant_env grant_env] h h'
    by simp
qed

end
